theory Spec2Isabelle
  imports Main "HOL-Library.Signed_Division"
begin

section \<open>Machine integers, errors and results\<close>

text \<open>
  The source computes on \<open>int64_t\<close>.  A 64-bit signed value is modelled as an \<open>int\<close>;
  every addition, subtraction and multiplication of the source whose operands come from limbs,
  carries or accumulators is wrapped by \<open>s64\<close> (two's complement wrap-around), and \<open>/\<close> and
  \<open>%\<close> are the truncating \<open>sdiv\<close> and \<open>smod\<close>.
\<close>

definition s64 :: "int \<Rightarrow> int" where
  "s64 x = (x + 2 ^ 63) mod 2 ^ 64 - 2 ^ 63"

definition INT64_MAX :: int where
  "INT64_MAX = 9223372036854775807"

definition INT64_MIN :: int where
  "INT64_MIN = - 9223372036854775808"

definition internal_base :: int where
  "internal_base = 1000000000"

text \<open>
  The exceptions of the source: \<open>std::logic_error("Invalid base")\<close>,
  \<open>std::runtime_error("Invalid symbol at index i")\<close>, \<open>DivisionByZeroError\<close> and
  \<open>std::runtime_error("int64_t overflow")\<close>.  A computation yields \<open>None\<close> when it does not
  return, \<open>Some (Inl e)\<close> when it throws \<open>e\<close> and \<open>Some (Inr v)\<close> when it returns \<open>v\<close>.
\<close>

datatype error = InvalidBase | InvalidSymbol nat | DivisionByZeroError | Int64Overflow

type_synonym 'a result = "(error + 'a) option"

abbreviation Ok :: "'a \<Rightarrow> 'a result" where
  "Ok v \<equiv> Some (Inr v)"

abbreviation Throw :: "error \<Rightarrow> 'a result" where
  "Throw e \<equiv> Some (Inl e)"

definition bindr :: "'a result \<Rightarrow> ('a \<Rightarrow> 'b result) \<Rightarrow> 'b result" where
  "bindr m f = (case m of None \<Rightarrow> None | Some (Inl e) \<Rightarrow> Some (Inl e) | Some (Inr v) \<Rightarrow> f v)"

lemma bindr_mono [partial_function_mono]:
  assumes mf: "mono_option B" and mg: "\<And>y. mono_option (\<lambda>f. C y f)"
  shows "mono_option (\<lambda>f. bindr (B f) (\<lambda>y. C y f))"
proof -
  have eq: "\<And>m g. bindr m g = Option.bind m (\<lambda>r. case r of Inl e \<Rightarrow> Some (Inl e) | Inr v \<Rightarrow> g v)"
    by (simp add: bindr_def split: option.splits sum.splits)
  have "mono_option (\<lambda>f. Option.bind (B f) (\<lambda>r. case r of Inl e \<Rightarrow> Some (Inl e) | Inr v \<Rightarrow> C v f))"
  proof (rule bind_mono [OF mf])
    fix r :: "error + 'c"
    show "mono_option (\<lambda>f. case r of Inl e \<Rightarrow> Some (Inl e) | Inr v \<Rightarrow> C v f)"
      by (cases r) (simp_all add: mg option.const_mono)
  qed
  then show ?thesis by (simp add: eq)
qed

section \<open>Representation\<close>

text \<open>
  \<open>class BigInteger\<close>: the limbs \<open>digits_\<close> (here \<open>digits\<close>), least significant first, and the flag
  \<open>is_negative\<close>.
\<close>

record BigInteger =
  digits :: "int list"
  is_negative :: bool

definition NumberOfDigits :: "BigInteger \<Rightarrow> nat" where
  "NumberOfDigits a = length (digits a)"

definition Sign :: "BigInteger \<Rightarrow> int" where
  "Sign a = (if NumberOfDigits a = 0 then 0 else if is_negative a then - 1 else 1)"

definition Negate :: "BigInteger \<Rightarrow> BigInteger" where
  "Negate a = a\<lparr>is_negative := \<not> is_negative a\<rparr>"

definition Abs :: "BigInteger \<Rightarrow> BigInteger" where
  "Abs a = a\<lparr>is_negative := False\<rparr>"

text \<open>\<open>DigitAt\<close> is \<open>digits_.at(pos)\<close>; every call of the source is guarded by
  \<open>pos < NumberOfDigits()\<close>, and so is every use below.\<close>

definition DigitAt :: "BigInteger \<Rightarrow> nat \<Rightarrow> int" where
  "DigitAt a pos = digits a ! pos"

definition SignedDigitAt :: "BigInteger \<Rightarrow> nat \<Rightarrow> int" where
  "SignedDigitAt a pos = s64 (Sign a * DigitAt a pos)"

text \<open>\<open>RemoveZeroes\<close>: scan down from the last limb to the first nonzero one, then resize.
  The scan is on \<open>rightmost_nonzero + 1\<close>.\<close>

fun rightmost_nonzero :: "int list \<Rightarrow> nat \<Rightarrow> nat" where
  "rightmost_nonzero ds 0 = 0"
| "rightmost_nonzero ds (Suc r) = (if ds ! r \<noteq> 0 then Suc r else rightmost_nonzero ds r)"

definition RemoveZeroes :: "BigInteger \<Rightarrow> BigInteger" where
  "RemoveZeroes a = a\<lparr>digits := take (rightmost_nonzero (digits a) (NumberOfDigits a)) (digits a)\<rparr>"

definition InsertLeastSignificantDigit :: "BigInteger \<Rightarrow> int \<Rightarrow> BigInteger" where
  "InsertLeastSignificantDigit a digit = a\<lparr>digits := digit # digits a\<rparr>"

definition InsertLeastSignificantDigits :: "BigInteger \<Rightarrow> int \<Rightarrow> nat \<Rightarrow> BigInteger" where
  "InsertLeastSignificantDigits a digit quantity = a\<lparr>digits := replicate quantity digit @ digits a\<rparr>"

definition PushLeadingDigit :: "BigInteger \<Rightarrow> int \<Rightarrow> BigInteger" where
  "PushLeadingDigit a digit = a\<lparr>digits := digits a @ [digit]\<rparr>"

definition PushDigitToEnd :: "BigInteger \<Rightarrow> int \<Rightarrow> BigInteger" where
  "PushDigitToEnd a digit = a\<lparr>digits := digits a @ [digit]\<rparr>"

definition ReverseDigitsAndNormalize :: "BigInteger \<Rightarrow> BigInteger" where
  "ReverseDigitsAndNormalize a = RemoveZeroes (a\<lparr>digits := rev (digits a)\<rparr>)"

definition RemainderByBase :: "int \<Rightarrow> int" where
  "RemainderByBase number = s64 (number smod internal_base + internal_base) smod internal_base"

text \<open>\<open>BigInteger(int64_t value)\<close>: the sign, then the limbs of \<open>value\<close> by repeated
  truncating division.\<close>

function from_int64_loop :: "int \<Rightarrow> BigInteger \<Rightarrow> BigInteger" where
  "from_int64_loop v a =
     (if v \<noteq> 0
      then from_int64_loop (v sdiv internal_base) (PushLeadingDigit a \<bar>v smod internal_base\<bar>)
      else a)"
  by pat_completeness auto
termination
proof (relation "measure (\<lambda>(v, a). nat \<bar>v\<bar>)")
  show "wf (measure (\<lambda>(v, a). nat \<bar>v\<bar>))" by simp
next
  fix v :: int and a :: BigInteger
  assume "v \<noteq> 0"
  have "\<bar>v sdiv internal_base\<bar> = \<bar>v\<bar> div internal_base"
    using \<open>v \<noteq> 0\<close> by (simp add: signed_divide_int_def internal_base_def abs_mult)
  moreover have "\<bar>v\<bar> div internal_base < \<bar>v\<bar>"
    using \<open>v \<noteq> 0\<close> int_div_less_self [of "\<bar>v\<bar>" internal_base]
    by (simp add: internal_base_def)
  ultimately show "((v sdiv internal_base, PushLeadingDigit a \<bar>v smod internal_base\<bar>), (v, a))
      \<in> measure (\<lambda>(v, a). nat \<bar>v\<bar>)"
    by simp
qed

definition from_int64 :: "int \<Rightarrow> BigInteger" where
  "from_int64 v = from_int64_loop v \<lparr>digits = [], is_negative = v < 0\<rparr>"

section \<open>Comparison\<close>

fun CompareDigitsFrom :: "BigInteger \<Rightarrow> BigInteger \<Rightarrow> nat \<Rightarrow> int" where
  "CompareDigitsFrom lhs rhs 0 = 0"
| "CompareDigitsFrom lhs rhs (Suc i) =
     (if DigitAt lhs i \<noteq> DigitAt rhs i
      then (if DigitAt lhs i < DigitAt rhs i then - 1 else 1)
      else CompareDigitsFrom lhs rhs i)"

definition CompareAbsoluteValues :: "BigInteger \<Rightarrow> BigInteger \<Rightarrow> int" where
  "CompareAbsoluteValues lhs rhs =
     (if NumberOfDigits lhs \<noteq> NumberOfDigits rhs
      then (if NumberOfDigits lhs < NumberOfDigits rhs then - 1 else 1)
      else CompareDigitsFrom lhs rhs (NumberOfDigits lhs))"

definition op_eq :: "BigInteger \<Rightarrow> BigInteger \<Rightarrow> bool" where
  "op_eq lhs rhs = (if Sign lhs \<noteq> Sign rhs then False else CompareAbsoluteValues lhs rhs = 0)"

definition op_ne :: "BigInteger \<Rightarrow> BigInteger \<Rightarrow> bool" where
  "op_ne lhs rhs = (\<not> op_eq lhs rhs)"

definition op_lt :: "BigInteger \<Rightarrow> BigInteger \<Rightarrow> bool" where
  "op_lt lhs rhs =
     (if Sign lhs \<noteq> Sign rhs then Sign lhs < Sign rhs
      else CompareAbsoluteValues lhs rhs * Sign lhs = - 1)"

definition op_gt :: "BigInteger \<Rightarrow> BigInteger \<Rightarrow> bool" where
  "op_gt lhs rhs = (\<not> (op_eq lhs rhs \<or> op_lt lhs rhs))"

definition op_le :: "BigInteger \<Rightarrow> BigInteger \<Rightarrow> bool" where
  "op_le lhs rhs = (op_eq lhs rhs \<or> op_lt lhs rhs)"

definition op_ge :: "BigInteger \<Rightarrow> BigInteger \<Rightarrow> bool" where
  "op_ge lhs rhs = (\<not> op_lt lhs rhs)"

text \<open>The overloads taking an \<open>int64_t\<close> promote it with \<open>BigInteger(rhs)\<close>.\<close>

definition op_eq_i64 :: "BigInteger \<Rightarrow> int \<Rightarrow> bool" where
  "op_eq_i64 lhs rhs = op_eq lhs (from_int64 rhs)"

definition op_ne_i64 :: "BigInteger \<Rightarrow> int \<Rightarrow> bool" where
  "op_ne_i64 lhs rhs = op_ne lhs (from_int64 rhs)"

definition op_lt_i64 :: "BigInteger \<Rightarrow> int \<Rightarrow> bool" where
  "op_lt_i64 lhs rhs = op_lt lhs (from_int64 rhs)"

definition op_gt_i64 :: "BigInteger \<Rightarrow> int \<Rightarrow> bool" where
  "op_gt_i64 lhs rhs = op_gt lhs (from_int64 rhs)"

definition op_le_i64 :: "BigInteger \<Rightarrow> int \<Rightarrow> bool" where
  "op_le_i64 lhs rhs = op_le lhs (from_int64 rhs)"

definition op_ge_i64 :: "BigInteger \<Rightarrow> int \<Rightarrow> bool" where
  "op_ge_i64 lhs rhs = op_ge lhs (from_int64 rhs)"

section \<open>Arithmetic\<close>

text \<open>Unary minus: a copy with the flag flipped.\<close>

definition op_neg :: "BigInteger \<Rightarrow> BigInteger" where
  "op_neg a = Negate a"

text \<open>\<open>MultiplyByShort\<close>: the loop runs while \<open>i < NumberOfDigits\<close> or a carry is left.\<close>

function MultiplyByShort_loop :: "BigInteger \<Rightarrow> int \<Rightarrow> nat \<Rightarrow> int \<Rightarrow> BigInteger \<Rightarrow> BigInteger" where
  "MultiplyByShort_loop lhs rhs i carry result =
     (if i < NumberOfDigits lhs \<or> carry \<noteq> 0
      then (let digit = (if i < NumberOfDigits lhs then s64 (carry + s64 (DigitAt lhs i * rhs)) else carry)
            in MultiplyByShort_loop lhs rhs (i + 1) (digit sdiv internal_base)
                 (PushLeadingDigit result (digit smod internal_base)))
      else result)"
  by pat_completeness auto
termination
proof (relation "measures [\<lambda>(lhs, rhs, i, carry, result). NumberOfDigits lhs - i,
                           \<lambda>(lhs, rhs, i, carry, result). nat \<bar>carry\<bar>]")
  show "wf (measures [\<lambda>(lhs, rhs, i, carry, result). NumberOfDigits lhs - i,
                      \<lambda>(lhs :: BigInteger, rhs :: int, i :: nat, carry, result :: BigInteger). nat \<bar>carry\<bar>])"
    by simp
next
  fix lhs :: BigInteger and rhs :: int and i :: nat and carry :: int and result :: BigInteger
    and digit :: int
  assume c: "i < NumberOfDigits lhs \<or> carry \<noteq> 0"
    and d: "digit = (if i < NumberOfDigits lhs then s64 (carry + s64 (DigitAt lhs i * rhs)) else carry)"
  have "carry \<noteq> 0 \<Longrightarrow> \<bar>carry sdiv internal_base\<bar> = \<bar>carry\<bar> div internal_base"
    by (simp add: signed_divide_int_def internal_base_def abs_mult)
  moreover have "carry \<noteq> 0 \<Longrightarrow> \<bar>carry\<bar> div internal_base < \<bar>carry\<bar>"
    using int_div_less_self [of "\<bar>carry\<bar>" internal_base] by (simp add: internal_base_def)
  ultimately show "((lhs, rhs, i + 1, digit sdiv internal_base,
                     PushLeadingDigit result (digit smod internal_base)),
                    (lhs, rhs, i, carry, result))
      \<in> measures [\<lambda>(lhs, rhs, i, carry, result). NumberOfDigits lhs - i,
                   \<lambda>(lhs, rhs, i, carry, result). nat \<bar>carry\<bar>]"
    using c d by (cases "i < NumberOfDigits lhs") auto
qed

definition MultiplyByShort :: "BigInteger \<Rightarrow> int \<Rightarrow> BigInteger" where
  "MultiplyByShort lhs rhs =
     (RemoveZeroes (MultiplyByShort_loop lhs rhs 0 0 \<lparr>digits = [], is_negative = False\<rparr>))
       \<lparr>is_negative := op_lt_i64 lhs 0\<rparr>"

text \<open>
  \<open>operator+\<close>.  The loop runs while \<open>i < NumberOfDigits\<close> or a carry is left; with a
  negative carry past the last limb it never stops, so it is a partial function.
\<close>

partial_function (option) op_add_loop ::
    "BigInteger \<Rightarrow> BigInteger \<Rightarrow> nat \<Rightarrow> int \<Rightarrow> BigInteger \<Rightarrow> BigInteger result" where
  "op_add_loop lhs rhs i carry result =
     (if i < NumberOfDigits lhs \<or> carry \<noteq> 0
      then (let digit0 = carry;
                digit1 = (if i < NumberOfDigits lhs then s64 (digit0 + DigitAt lhs i) else digit0);
                digit2 = (if i < NumberOfDigits rhs then s64 (digit1 + SignedDigitAt rhs i) else digit1);
                result' = PushLeadingDigit result (RemainderByBase digit2)
            in op_add_loop lhs rhs (i + 1)
                 (s64 (digit2 - last (digits result')) sdiv internal_base) result')
      else Ok result)"

partial_function (option) op_add :: "BigInteger \<Rightarrow> BigInteger \<Rightarrow> BigInteger result" where
  "op_add lhs rhs =
     (if CompareAbsoluteValues lhs rhs = - 1 then op_add rhs lhs
      else if op_lt_i64 lhs 0
      then bindr (op_add (op_neg lhs) (op_neg rhs)) (\<lambda>r. Ok (op_neg r))
      else bindr (op_add_loop lhs rhs 0 0 \<lparr>digits = [], is_negative = False\<rparr>)
             (\<lambda>result. Ok (RemoveZeroes result)))"

definition op_sub :: "BigInteger \<Rightarrow> BigInteger \<Rightarrow> BigInteger result" where
  "op_sub lhs rhs =
     (if op_lt_i64 lhs 0 then bindr (op_add (op_neg lhs) rhs) (\<lambda>r. Ok (op_neg r))
      else op_add lhs (op_neg rhs))"

text \<open>\<open>operator*\<close>: one \<open>MultiplyByShort\<close> per limb of \<open>rhs\<close>, shifted by \<open>i\<close> zero limbs and
  added to the running total.\<close>

function op_mul_loop :: "BigInteger \<Rightarrow> BigInteger \<Rightarrow> nat \<Rightarrow> BigInteger \<Rightarrow> BigInteger result" where
  "op_mul_loop lhs rhs i result =
     (if i < NumberOfDigits rhs
      then bindr (op_add result
                   (InsertLeastSignificantDigits (MultiplyByShort lhs (DigitAt rhs i)) 0 i))
             (\<lambda>result'. op_mul_loop lhs rhs (i + 1) result')
      else Ok result)"
  by pat_completeness auto
termination
  by (relation "measure (\<lambda>(lhs, rhs, i, result). NumberOfDigits rhs - i)") auto

partial_function (option) op_mul :: "BigInteger \<Rightarrow> BigInteger \<Rightarrow> BigInteger result" where
  "op_mul lhs rhs =
     (if op_lt_i64 lhs 0 then bindr (op_mul (op_neg lhs) rhs) (\<lambda>r. Ok (op_neg r))
      else if op_lt_i64 rhs 0 then bindr (op_mul lhs (op_neg rhs)) (\<lambda>r. Ok (op_neg r))
      else bindr (op_mul_loop lhs rhs 0 (from_int64 0)) (\<lambda>result. Ok (RemoveZeroes result)))"

text \<open>
  \<open>GuessDigit\<close>: bisection on \<open>[0, internal_base)\<close>.  Both bounds are locals that stay in
  \<open>[0, internal_base]\<close>, so their sum is written without wrap-around.
\<close>

function GuessDigit_loop :: "BigInteger \<Rightarrow> BigInteger \<Rightarrow> int \<Rightarrow> int \<Rightarrow> int" where
  "GuessDigit_loop lhs rhs quotient_l_bound quotient_u_bound =
     (if quotient_l_bound + 1 < quotient_u_bound
      then (let middle_candidate = (quotient_l_bound + quotient_u_bound) sdiv 2
            in if op_gt (MultiplyByShort rhs middle_candidate) lhs
               then GuessDigit_loop lhs rhs quotient_l_bound middle_candidate
               else GuessDigit_loop lhs rhs middle_candidate quotient_u_bound)
      else quotient_l_bound)"
  by pat_completeness auto
termination
proof (relation "measure (\<lambda>(lhs, rhs, l, u). nat (u - l))")
  show "wf (measure (\<lambda>(lhs :: BigInteger, rhs :: BigInteger, l, u). nat (u - l)))" by simp
next
  fix lhs rhs :: BigInteger and l u m :: int
  assume "l + 1 < u" and "m = (l + u) sdiv 2"
  then have "l < m \<and> m < u"
    by (cases "0 \<le> l + u") (simp_all add: signed_divide_int_def sgn_if, arith+)
  then show "((lhs, rhs, l, m), (lhs, rhs, l, u)) \<in> measure (\<lambda>(lhs, rhs, l, u). nat (u - l))"
    by simp
next
  fix lhs rhs :: BigInteger and l u m :: int
  assume "l + 1 < u" and "m = (l + u) sdiv 2"
  then have "l < m \<and> m < u"
    by (cases "0 \<le> l + u") (simp_all add: signed_divide_int_def sgn_if, arith+)
  then show "((lhs, rhs, m, u), (lhs, rhs, l, u)) \<in> measure (\<lambda>(lhs, rhs, l, u). nat (u - l))"
    by simp
qed

definition GuessDigit :: "BigInteger \<Rightarrow> BigInteger \<Rightarrow> int" where
  "GuessDigit lhs rhs = GuessDigit_loop lhs rhs 0 internal_base"

text \<open>
  \<open>operator/\<close>.  The loop index \<open>i\<close> runs from \<open>NumberOfDigits() - 1\<close> down to \<open>0\<close>; the
  recursion is on \<open>i + 1\<close>.
\<close>

fun op_div_loop ::
    "BigInteger \<Rightarrow> BigInteger \<Rightarrow> nat \<Rightarrow> BigInteger \<Rightarrow> BigInteger \<Rightarrow> BigInteger result" where
  "op_div_loop lhs rhs 0 reversed_result trailing_dividend = Ok reversed_result"
| "op_div_loop lhs rhs (Suc i) reversed_result trailing_dividend =
     (let trailing_dividend' = InsertLeastSignificantDigit trailing_dividend (DigitAt lhs i);
          digit = GuessDigit trailing_dividend' rhs;
          reversed_result' = PushDigitToEnd reversed_result digit
      in bindr (op_sub trailing_dividend' (MultiplyByShort rhs digit))
           (\<lambda>trailing_dividend''. op_div_loop lhs rhs i reversed_result' trailing_dividend''))"

partial_function (option) op_div :: "BigInteger \<Rightarrow> BigInteger \<Rightarrow> BigInteger result" where
  "op_div lhs rhs =
     (if op_eq_i64 rhs 0 then Throw DivisionByZeroError
      else if op_lt_i64 lhs 0 then bindr (op_div (op_neg lhs) rhs) (\<lambda>r. Ok (op_neg r))
      else if op_lt_i64 rhs 0 then bindr (op_div lhs (op_neg rhs)) (\<lambda>r. Ok (op_neg r))
      else bindr (op_div_loop lhs rhs (NumberOfDigits lhs) (from_int64 0) (from_int64 0))
             (\<lambda>reversed_result. Ok (ReverseDigitsAndNormalize reversed_result)))"

text \<open>\<open>operator int64_t\<close>: the range check, then the limbs summed with a power \<open>pwr\<close> that stops
  growing once \<open>pwr * internal_base\<close> would pass \<open>INT64_MAX\<close>.\<close>

fun to_int64_loop :: "int list \<Rightarrow> int \<Rightarrow> int \<Rightarrow> int result" where
  "to_int64_loop [] result pwr = Ok result"
| "to_int64_loop (digit # ds) result pwr =
     (let result' = s64 (result + s64 (digit * pwr))
      in bindr (op_mul (from_int64 pwr) (from_int64 internal_base))
           (\<lambda>p. to_int64_loop ds result'
                  (if op_le_i64 p INT64_MAX then s64 (pwr * internal_base) else pwr)))"

definition to_int64 :: "BigInteger \<Rightarrow> int result" where
  "to_int64 a =
     (if op_gt_i64 a INT64_MAX \<or> op_lt_i64 a INT64_MIN then Throw Int64Overflow
      else bindr (to_int64_loop (digits a) 0 1) (\<lambda>result. Ok (s64 (result * Sign a))))"

text \<open>\<open>operator%(uint32_t)\<close>: the modulus is a \<open>uint32_t\<close>, here a \<open>nat\<close> below \<open>2 ^ 32\<close>; it
  is promoted to \<open>int64_t\<close> in every operation, and the result is converted to
  \<open>uint32_t\<close>.\<close>

definition op_rem :: "BigInteger \<Rightarrow> nat \<Rightarrow> nat result" where
  "op_rem a rhs =
     bindr (op_div a (from_int64 (int rhs))) (\<lambda>q.
     bindr (op_mul q (from_int64 (int rhs))) (\<lambda>p.
     bindr (op_sub a p) (\<lambda>d.
     bindr (to_int64 d) (\<lambda>v.
     Ok (nat ((s64 (v + int rhs) smod int rhs) mod 2 ^ 32))))))"

section \<open>Text\<close>

definition ThrowIfBaseIsInvalid :: "int \<Rightarrow> unit result" where
  "ThrowIfBaseIsInvalid base = (if base < 2 \<or> base > 36 then Throw InvalidBase else Ok ())"

definition DigitToChar :: "int \<Rightarrow> char" where
  "DigitToChar digit =
     char_of (if digit < 10 then s64 (digit + of_char (CHR ''0''))
              else s64 (s64 (digit - 10) + of_char (CHR ''a'')))"

definition CharToDigit :: "char \<Rightarrow> int" where
  "CharToDigit ch =
     (if (of_char (CHR ''0'') :: int) \<le> of_char ch \<and> (of_char ch :: int) \<le> of_char (CHR ''9'')
      then of_char ch - of_char (CHR ''0'')
      else if (of_char (CHR ''a'') :: int) \<le> of_char ch \<and> (of_char ch :: int) \<le> of_char (CHR ''z'')
      then of_char ch - of_char (CHR ''a'') + 10
      else - 1)"

definition GetReversedBasePrefix :: "int \<Rightarrow> string" where
  "GetReversedBasePrefix base = (if base = 8 then ''0'' else if base = 16 then ''x0'' else [])"

text \<open>\<open>FromString\<close>: the first loop checks the characters from index \<open>0\<close> (the argument is
  the text from index \<open>i\<close> on), the second accumulates from the last character to the first
  (the argument is the reversed text).\<close>

fun FromString_check :: "string \<Rightarrow> int \<Rightarrow> nat \<Rightarrow> unit result" where
  "FromString_check [] base i = Ok ()"
| "FromString_check (ch # rest) base i =
     (if i = 0 \<and> ch = CHR ''-'' then FromString_check rest base (i + 1)
      else (let digit = CharToDigit ch
            in if digit \<ge> base \<or> digit = - 1 then Throw (InvalidSymbol i)
               else FromString_check rest base (i + 1)))"

fun FromString_loop :: "string \<Rightarrow> int \<Rightarrow> BigInteger \<Rightarrow> BigInteger \<Rightarrow> BigInteger result" where
  "FromString_loop [] base result base_power = Ok result"
| "FromString_loop (ch # rest) base result base_power =
     (if ch = CHR ''-'' then FromString_loop rest base result base_power
      else bindr (op_add result (MultiplyByShort base_power (CharToDigit ch)))
             (\<lambda>result'. FromString_loop rest base result' (MultiplyByShort base_power base)))"

definition FromString :: "string \<Rightarrow> int \<Rightarrow> BigInteger result" where
  "FromString input base =
     bindr (ThrowIfBaseIsInvalid base) (\<lambda>_.
     bindr (FromString_check input base 0) (\<lambda>_.
     bindr (FromString_loop (rev input) base (from_int64 0) (from_int64 1)) (\<lambda>result.
     Ok (if (case input of [] \<Rightarrow> False | ch # _ \<Rightarrow> ch = CHR ''-'') then op_neg result else result))))"

text \<open>\<open>ToString\<close>: the loop divides \<open>temp\<close> by the base until it is zero.\<close>

partial_function (option) ToString_loop :: "BigInteger \<Rightarrow> int \<Rightarrow> string \<Rightarrow> string result" where
  "ToString_loop temp base reversed_result =
     (if op_ne_i64 temp 0
      then bindr (op_div temp (from_int64 base)) (\<lambda>q.
           bindr (op_sub temp (MultiplyByShort q base)) (\<lambda>d.
           bindr (to_int64 d) (\<lambda>digit.
           bindr (op_div temp (from_int64 base)) (\<lambda>temp'.
           ToString_loop temp' base (reversed_result @ [DigitToChar digit])))))
      else Ok reversed_result)"

definition ToString :: "BigInteger \<Rightarrow> int \<Rightarrow> bool \<Rightarrow> string result" where
  "ToString a base should_show_base =
     bindr (ThrowIfBaseIsInvalid base) (\<lambda>_.
     bindr (ToString_loop (Abs a) base (if op_eq_i64 a 0 then ''0'' else [])) (\<lambda>r1.
     (let r2 = (if should_show_base then r1 @ GetReversedBasePrefix base else r1);
          r3 = (if op_lt_i64 a 0 then r2 @ ''-'' else r2)
      in Ok (rev r3))))"

section \<open>The formatted-text channel\<close>

text \<open>
  A \<open>std::ostream\<close> as far as \<open>operator<<\<close> reads and writes it: the three flags of the
  base field, the \<open>showbase\<close> flag and the characters written so far (the field width is 0).
\<close>

record ostream =
  flag_dec :: bool
  flag_oct :: bool
  flag_hex :: bool
  flag_showbase :: bool
  written :: string

definition put_char :: "ostream \<Rightarrow> char \<Rightarrow> ostream" where
  "put_char os ch = os\<lparr>written := written os @ [ch]\<rparr>"

definition put_string :: "ostream \<Rightarrow> string \<Rightarrow> ostream" where
  "put_string os str = os\<lparr>written := written os @ str\<rparr>"

definition set_hex :: "ostream \<Rightarrow> ostream" where
  "set_hex os = os\<lparr>flag_dec := False, flag_oct := False, flag_hex := True\<rparr>"

definition set_oct :: "ostream \<Rightarrow> ostream" where
  "set_oct os = os\<lparr>flag_dec := False, flag_oct := True, flag_hex := False\<rparr>"

definition set_showbase :: "ostream \<Rightarrow> ostream" where
  "set_showbase os = os\<lparr>flag_showbase := True\<rparr>"

definition GetStreamBase :: "ostream \<Rightarrow> int" where
  "GetStreamBase stream =
     (if flag_hex stream \<and> \<not> flag_oct stream \<and> \<not> flag_dec stream then 16
      else if flag_oct stream \<and> \<not> flag_hex stream \<and> \<not> flag_dec stream then 8
      else 10)"

definition op_out :: "ostream \<Rightarrow> BigInteger \<Rightarrow> ostream result" where
  "op_out os big_int =
     bindr (ToString big_int 10 False) (\<lambda>str.
     Ok (if flag_showbase os
         then (if flag_hex os
               then (if op_lt_i64 big_int 0
                     then put_string (set_showbase (set_hex (put_char os CHR ''-''))) str
                     else put_string (set_showbase (set_hex os)) str)
               else if flag_oct os
               then (if op_lt_i64 big_int 0
                     then put_string (set_showbase (set_oct (put_char os CHR ''-''))) str
                     else put_string (set_showbase (set_oct os)) str)
               else (if op_lt_i64 big_int 0
                     then put_string (put_char os CHR ''-'') str
                     else put_string os str))
         else put_string os str))"

section \<open>The value of a representation\<close>

text \<open>
  The value of a limb list is \<open>\<Sum> limb[i] * internal_base ^ i\<close>; \<open>limbs\<close> says that every
  limb is in \<open>[0, internal_base)\<close>, \<open>canon\<close> that there is no most-significant zero limb.
  A representation is \<open>canonical\<close> when both hold (zero is then the empty limb list), and
  \<open>int_of\<close> is the integer it stands for.  The flag of a canonical zero is left free: see C3.
\<close>

fun val :: "int list \<Rightarrow> int" where
  "val [] = 0"
| "val (d # ds) = d + internal_base * val ds"

definition limbs :: "int list \<Rightarrow> bool" where
  "limbs ds = (\<forall>d\<in>set ds. 0 \<le> d \<and> d < internal_base)"

definition canon :: "int list \<Rightarrow> bool" where
  "canon ds = (ds = [] \<or> last ds \<noteq> 0)"

definition canonical :: "BigInteger \<Rightarrow> bool" where
  "canonical a = (limbs (digits a) \<and> canon (digits a))"

definition int_of :: "BigInteger \<Rightarrow> int" where
  "int_of a = Sign a * val (digits a)"

declare MultiplyByShort_loop.simps [simp del] from_int64_loop.simps [simp del]
  GuessDigit_loop.simps [simp del] op_mul_loop.simps [simp del]

text \<open>The absolute-value comparison of the source agrees with the values of the limb lists.\<close>

definition ordered_abs :: "BigInteger \<Rightarrow> BigInteger \<Rightarrow> bool" where
  "ordered_abs a b = (if CompareAbsoluteValues a b = - 1 then val (digits a) \<le> val (digits b)
                      else val (digits b) \<le> val (digits a))"

text \<open>The remainder of a step is canonical, or the single limb \<open>0\<close>.\<close>

definition remainder_form :: "BigInteger \<Rightarrow> bool" where
  "remainder_form t = (limbs (digits t) \<and> digits t \<noteq> [] \<and> \<not> is_negative t
                       \<and> (canon (digits t) \<or> length (digits t) = 1))"

text \<open>
  For the text conversions: a character is a \<open>valid_digit\<close> of a base when \<open>CharToDigit\<close> maps
  it to a digit below the base; \<open>str_val\<close> is the number that a run of digit characters
  stands for, least significant first, a \<open>-\<close> counting for nothing; \<open>lsb_digits\<close> are the
  digits of a positive number in a base, least significant first.
\<close>

definition valid_digit :: "int \<Rightarrow> char \<Rightarrow> bool" where
  "valid_digit base ch = (0 \<le> CharToDigit ch \<and> CharToDigit ch < base)"

fun str_val :: "int \<Rightarrow> string \<Rightarrow> int" where
  "str_val base [] = 0"
| "str_val base (ch # rest) =
     (if ch = CHR ''-'' then str_val base rest else CharToDigit ch + base * str_val base rest)"

function lsb_digits :: "int \<Rightarrow> int \<Rightarrow> int list" where
  "lsb_digits base n = (if 2 \<le> base \<and> 0 < n then (n mod base) # lsb_digits base (n div base) else [])"
  by pat_completeness auto
termination
proof (relation "measure (\<lambda>(base, n). nat n)")
  show "wf (measure (\<lambda>(base :: int, n). nat n))" by simp
next
  fix base n :: int
  assume "2 \<le> base \<and> 0 < n"
  then have "n div base < n" by (intro int_div_less_self) simp_all
  then show "((base, n div base), (base, n)) \<in> measure (\<lambda>(base, n). nat n)"
    using \<open>2 \<le> base \<and> 0 < n\<close> by simp
qed

declare lsb_digits.simps [simp del]

text \<open>The characters that \<open>FromString\<close> accepts at index \<open>i\<close>: a \<open>-\<close> at index \<open>0\<close>, or a
  digit of the base.\<close>

definition accepted :: "int \<Rightarrow> string \<Rightarrow> nat \<Rightarrow> bool" where
  "accepted base input i = ((i = 0 \<and> input ! 0 = CHR ''-'') \<or> valid_digit base (input ! i))"

declare op_add_loop.simps [code] op_add.simps [code] op_mul.simps [code] op_div.simps [code]
  ToString_loop.simps [code]

section \<open>Properties of the representation\<close>

lemma base_gt_1: "1 < internal_base"
  by (simp add: internal_base_def)

lemma base_pos: "0 < internal_base"
  by (simp add: internal_base_def)

lemma base_sq: "internal_base * internal_base = 1000000000000000000"
  by (simp add: internal_base_def)

lemma s64_id: "- (2 ^ 63) \<le> x \<Longrightarrow> x < 2 ^ 63 \<Longrightarrow> s64 x = x"
  by (simp add: s64_def)

lemma s64_small: "\<bar>x\<bar> \<le> 4 * (internal_base * internal_base) \<Longrightarrow> s64 x = x"
  by (rule s64_id) (simp_all add: base_sq)

lemma sdiv_nonneg: "0 \<le> x \<Longrightarrow> 0 < y \<Longrightarrow> x sdiv y = x div (y :: int)"
  by (simp add: signed_divide_int_def sgn_if)

lemma smod_nonneg: "0 \<le> x \<Longrightarrow> 0 < y \<Longrightarrow> x smod y = x mod (y :: int)"
  by (simp add: signed_modulo_int_def sgn_if)

lemma abs_sdiv: "0 < y \<Longrightarrow> \<bar>x sdiv y\<bar> = \<bar>x\<bar> div (y :: int)"
  by (simp add: signed_divide_int_def sgn_if abs_mult pos_imp_zdiv_nonneg_iff)

lemma abs_smod: "0 < y \<Longrightarrow> \<bar>x smod y\<bar> = \<bar>x\<bar> mod (y :: int)"
  by (simp add: signed_modulo_int_def sgn_if abs_mult)

subsection \<open>Limb lists\<close>

lemma limbs_Nil [simp]: "limbs []"
  by (simp add: limbs_def)

lemma limbs_Cons [simp]: "limbs (d # ds) \<longleftrightarrow> 0 \<le> d \<and> d < internal_base \<and> limbs ds"
  by (auto simp: limbs_def)

lemma limbs_append [simp]: "limbs (xs @ ys) \<longleftrightarrow> limbs xs \<and> limbs ys"
  by (auto simp: limbs_def)

lemma limbs_rev [simp]: "limbs (rev xs) \<longleftrightarrow> limbs xs"
  by (auto simp: limbs_def)

lemma limbs_take: "limbs xs \<Longrightarrow> limbs (take n xs)"
  by (auto simp: limbs_def dest: in_set_takeD)

lemma limbs_drop: "limbs xs \<Longrightarrow> limbs (drop n xs)"
  by (auto simp: limbs_def dest: in_set_dropD)

lemma limbs_nth: "limbs xs \<Longrightarrow> i < length xs \<Longrightarrow> 0 \<le> xs ! i \<and> xs ! i < internal_base"
  by (auto simp: limbs_def)

lemma limbs_replicate [simp]: "limbs (replicate n 0)"
  by (simp add: limbs_def base_pos)

lemma val_append: "val (xs @ ys) = val xs + internal_base ^ length xs * val ys"
  by (induction xs) (simp_all add: algebra_simps)

lemma val_replicate [simp]: "val (replicate n 0) = 0"
  by (induction n) simp_all

lemma val_nonneg: "limbs ds \<Longrightarrow> 0 \<le> val ds"
  using base_pos by (induction ds) simp_all

lemma val_less: "limbs ds \<Longrightarrow> val ds < internal_base ^ length ds"
proof (induction ds)
  case Nil
  then show ?case by simp
next
  case (Cons d ds)
  then have "d \<le> internal_base - 1" and "val ds \<le> internal_base ^ length ds - 1"
    by simp_all
  then have "internal_base * val ds \<le> internal_base * (internal_base ^ length ds - 1)"
    using base_pos by (simp add: mult_left_mono)
  with \<open>d \<le> internal_base - 1\<close> show ?case
    by (simp add: algebra_simps)
qed

lemma val_ge: "limbs ds \<Longrightarrow> ds \<noteq> [] \<Longrightarrow> last ds \<noteq> 0 \<Longrightarrow> internal_base ^ (length ds - 1) \<le> val ds"
proof (induction ds rule: rev_induct)
  case Nil
  then show ?case by simp
next
  case (snoc d ds)
  then have "1 \<le> d" and "0 \<le> val ds"
    by (simp_all add: val_nonneg)
  then have "internal_base ^ length ds * 1 \<le> internal_base ^ length ds * d"
    using base_pos by (intro mult_left_mono) simp_all
  with \<open>0 \<le> val ds\<close> show ?case
    by (simp add: val_append)
qed

lemma val_zero_canon:
  assumes "limbs ds" "canon ds" "val ds = 0"
  shows "ds = []"
proof (rule ccontr)
  assume "ds \<noteq> []"
  with assms have "internal_base ^ (length ds - 1) \<le> 0"
    using val_ge [of ds] by (simp add: canon_def)
  moreover have "0 < internal_base ^ (length ds - 1)"
    using base_pos by simp
  ultimately show False by simp
qed

lemma val_pos_canon: "limbs ds \<Longrightarrow> canon ds \<Longrightarrow> ds \<noteq> [] \<Longrightarrow> 0 < val ds"
  using val_zero_canon [of ds] val_nonneg [of ds] by fastforce

lemma val_inj: "limbs xs \<Longrightarrow> limbs ys \<Longrightarrow> length xs = length ys \<Longrightarrow> val xs = val ys \<Longrightarrow> xs = ys"
proof (induction xs arbitrary: ys)
  case Nil
  then show ?case by simp
next
  case (Cons x xs)
  then obtain y ys' where ys: "ys = y # ys'" by (cases ys) auto
  with Cons.prems have eq: "x + internal_base * val xs = y + internal_base * val ys'"
    and bx: "0 \<le> x" "x < internal_base" and by': "0 \<le> y" "y < internal_base"
    by simp_all
  from eq have "(x + internal_base * val xs) mod internal_base = (y + internal_base * val ys') mod internal_base"
    by simp
  with bx by' have "x = y" by simp
  with eq base_pos have "val xs = val ys'" by simp
  with Cons ys \<open>x = y\<close> show ?case by simp
qed

lemma length_le_val_le:
  assumes "limbs xs" "limbs ys" "canon ys" "length xs < length ys"
  shows "val xs < val ys"
proof -
  from assms have "ys \<noteq> []" "last ys \<noteq> 0" by (auto simp: canon_def)
  then have "internal_base ^ (length ys - 1) \<le> val ys"
    using assms val_ge by blast
  moreover have "internal_base ^ length xs \<le> internal_base ^ (length ys - 1)"
    using assms(4) base_gt_1 by (intro power_increasing) simp_all
  ultimately show ?thesis using val_less [OF assms(1)] by linarith
qed

lemma canonical_val_eq:
  assumes "limbs xs" "canon xs" "limbs ys" "canon ys" "val xs = val ys"
  shows "xs = ys"
proof -
  have "length xs = length ys"
    using length_le_val_le [of xs ys] length_le_val_le [of ys xs] assms
    by (metis less_irrefl linorder_neqE_nat)
  then show ?thesis using assms val_inj by blast
qed

subsection \<open>RemoveZeroes\<close>

lemma rightmost_nonzero_le: "rightmost_nonzero ds k \<le> k"
  by (induction k) simp_all

lemma rightmost_nonzero_val:
  "k \<le> length ds \<Longrightarrow> val (take (rightmost_nonzero ds k) ds) = val (take k ds)"
  by (induction k) (simp_all add: take_Suc_conv_app_nth val_append)

lemma rightmost_nonzero_last:
  "k \<le> length ds \<Longrightarrow> canon (take (rightmost_nonzero ds k) ds)"
proof (induction k)
  case 0
  then show ?case by (simp add: canon_def)
next
  case (Suc k)
  then show ?case
    by (auto simp: canon_def take_Suc_conv_app_nth)
qed

lemma rightmost_nonzero_canon:
  "canon ds \<Longrightarrow> rightmost_nonzero ds (length ds) = length ds"
  by (cases ds rule: rev_cases) (simp_all add: canon_def)

lemma RemoveZeroes_val [simp]: "val (digits (RemoveZeroes a)) = val (digits a)"
  by (simp add: RemoveZeroes_def NumberOfDigits_def rightmost_nonzero_val)

lemma RemoveZeroes_canon [simp]: "canon (digits (RemoveZeroes a))"
  by (simp add: RemoveZeroes_def NumberOfDigits_def rightmost_nonzero_last)

lemma RemoveZeroes_limbs: "limbs (digits a) \<Longrightarrow> limbs (digits (RemoveZeroes a))"
  by (simp add: RemoveZeroes_def limbs_take)

lemma RemoveZeroes_flag [simp]: "is_negative (RemoveZeroes a) = is_negative a"
  by (simp add: RemoveZeroes_def)

lemma RemoveZeroes_canonical: "limbs (digits a) \<Longrightarrow> canonical (RemoveZeroes a)"
  by (simp add: canonical_def RemoveZeroes_limbs)

lemma RemoveZeroes_id: "canon (digits a) \<Longrightarrow> RemoveZeroes a = a"
  by (simp add: RemoveZeroes_def NumberOfDigits_def rightmost_nonzero_canon)

subsection \<open>Sign and value\<close>

lemma Sign_cases: "Sign a = - 1 \<or> Sign a = 0 \<or> Sign a = 1"
  by (simp add: Sign_def)

lemma Sign_empty [simp]: "digits a = [] \<Longrightarrow> Sign a = 0"
  by (simp add: Sign_def NumberOfDigits_def)

lemma Sign_nonempty: "digits a \<noteq> [] \<Longrightarrow> Sign a = (if is_negative a then - 1 else 1)"
  by (simp add: Sign_def NumberOfDigits_def)

lemma Sign_op_neg [simp]: "Sign (op_neg a) = - Sign a"
  by (simp add: Sign_def op_neg_def Negate_def NumberOfDigits_def)

lemma digits_op_neg [simp]: "digits (op_neg a) = digits a"
  by (simp add: op_neg_def Negate_def)

lemma flag_op_neg [simp]: "is_negative (op_neg a) = (\<not> is_negative a)"
  by (simp add: op_neg_def Negate_def)

lemma op_neg_op_neg [simp]: "op_neg (op_neg a) = a"
  by (simp add: op_neg_def Negate_def)

lemma int_of_op_neg [simp]: "int_of (op_neg a) = - int_of a"
  by (simp add: int_of_def)

lemma canonical_op_neg [simp]: "canonical (op_neg a) = canonical a"
  by (simp add: canonical_def)

lemma canonical_Sign: "canonical a \<Longrightarrow> Sign a = sgn (int_of a)"
proof (cases "digits a = []")
  case True
  then show ?thesis by (simp add: int_of_def)
next
  case False
  assume "canonical a"
  with False have "0 < val (digits a)"
    by (simp add: canonical_def val_pos_canon)
  with False show ?thesis
    by (simp add: int_of_def Sign_nonempty sgn_if)
qed

lemma canonical_zero_iff: "canonical a \<Longrightarrow> int_of a = 0 \<longleftrightarrow> digits a = []"
  using canonical_Sign [of a] by (auto simp: Sign_def NumberOfDigits_def sgn_if split: if_splits)

lemma canonical_abs: "canonical a \<Longrightarrow> \<bar>int_of a\<bar> = val (digits a)"
  using val_nonneg [of "digits a"]
  by (cases "digits a = []") (auto simp: int_of_def canonical_def abs_mult Sign_nonempty)

subsection \<open>Construction from a native integer\<close>

lemma from_int64_loop_spec:
  "\<exists>ds. digits (from_int64_loop v a) = digits a @ ds \<and> limbs ds \<and> canon ds \<and> val ds = \<bar>v\<bar>
        \<and> is_negative (from_int64_loop v a) = is_negative a"
proof (induction v a rule: from_int64_loop.induct)
  case (1 v a)
  show ?case
  proof (cases "v = 0")
    case True
    then show ?thesis
      by (simp add: from_int64_loop.simps canon_def)
  next
    case False
    let ?d = "\<bar>v smod internal_base\<bar>"
    let ?a' = "PushLeadingDigit a ?d"
    from 1 [OF False] obtain ds where
      ds: "digits (from_int64_loop (v sdiv internal_base) ?a') = digits ?a' @ ds"
        "limbs ds" "canon ds" "val ds = \<bar>v sdiv internal_base\<bar>"
        "is_negative (from_int64_loop (v sdiv internal_base) ?a') = is_negative ?a'"
      by blast
    have d: "?d = \<bar>v\<bar> mod internal_base" and q: "\<bar>v sdiv internal_base\<bar> = \<bar>v\<bar> div internal_base"
      using base_pos by (simp_all add: abs_smod abs_sdiv)
    have eq: "from_int64_loop v a = from_int64_loop (v sdiv internal_base) ?a'"
      using False by (subst from_int64_loop.simps) simp
    have "canon (?d # ds)"
    proof (cases "ds = []")
      case True
      with ds(4) q have "\<bar>v\<bar> div internal_base = 0" by simp
      then have "\<bar>v\<bar> = \<bar>v\<bar> mod internal_base"
        using div_mult_mod_eq [of "\<bar>v\<bar>" internal_base] by simp
      then have "\<bar>v\<bar> < internal_base"
        using pos_mod_bound [OF base_pos, of "\<bar>v\<bar>"] by simp
      with False d show ?thesis
        by (simp add: True canon_def)
    next
      case False
      with ds(3) show ?thesis by (simp add: canon_def)
    qed
    moreover have "limbs (?d # ds)"
      using ds(2) d base_pos by simp
    moreover have "val (?d # ds) = \<bar>v\<bar>"
      using ds(4) d q by simp
    ultimately show ?thesis
      using ds(1,5) eq
      by (intro exI [of _ "?d # ds"]) (simp add: PushLeadingDigit_def)
  qed
qed

lemma from_int64_spec:
  "limbs (digits (from_int64 v)) \<and> canon (digits (from_int64 v))
     \<and> val (digits (from_int64 v)) = \<bar>v\<bar> \<and> is_negative (from_int64 v) = (v < 0)"
  using from_int64_loop_spec [of v "\<lparr>digits = [], is_negative = v < 0\<rparr>"]
  by (auto simp: from_int64_def)

lemma from_int64_canonical [simp]: "canonical (from_int64 v)"
  using from_int64_spec [of v] by (simp add: canonical_def)

lemma from_int64_flag [simp]: "is_negative (from_int64 v) = (v < 0)"
  using from_int64_spec [of v] by simp

lemma from_int64_val [simp]: "val (digits (from_int64 v)) = \<bar>v\<bar>"
  using from_int64_spec [of v] by simp

lemma from_int64_limbs [simp]: "limbs (digits (from_int64 v))"
  using from_int64_spec [of v] by simp

lemma from_int64_0: "from_int64 0 = \<lparr>digits = [], is_negative = False\<rparr>"
  unfolding from_int64_def by (subst from_int64_loop.simps) simp

lemma from_int64_digits_Nil [simp]: "digits (from_int64 v) = [] \<longleftrightarrow> v = 0"
proof
  assume "digits (from_int64 v) = []"
  then have "val (digits (from_int64 v)) = 0" by simp
  then show "v = 0" by simp
next
  assume "v = 0"
  then show "digits (from_int64 v) = []" by (simp add: from_int64_0)
qed

lemma from_int64_Sign [simp]: "Sign (from_int64 v) = sgn v"
  by (simp add: Sign_def NumberOfDigits_def sgn_if)

lemma int_of_from_int64 [simp]: "int_of (from_int64 v) = v"
  by (simp add: int_of_def sgn_if)

subsection \<open>Comparison\<close>

lemma CompareDigitsFrom_cong:
  "digits a = digits a' \<Longrightarrow> digits b = digits b' \<Longrightarrow>
   CompareDigitsFrom a b k = CompareDigitsFrom a' b' k"
  by (induction k) (simp_all add: DigitAt_def)

lemma CompareAbsoluteValues_cong:
  "digits a = digits a' \<Longrightarrow> digits b = digits b' \<Longrightarrow>
   CompareAbsoluteValues a b = CompareAbsoluteValues a' b'"
  using CompareDigitsFrom_cong [of a a' b b']
  by (simp add: CompareAbsoluteValues_def NumberOfDigits_def)

lemma CompareAbsoluteValues_op_neg [simp]:
  "CompareAbsoluteValues (op_neg a) b = CompareAbsoluteValues a b"
  "CompareAbsoluteValues a (op_neg b) = CompareAbsoluteValues a b"
  by (rule CompareAbsoluteValues_cong; simp)+

lemma CompareDigitsFrom_flip: "CompareDigitsFrom b a k = - CompareDigitsFrom a b k"
  by (induction k) auto

lemma CompareAbsoluteValues_flip: "CompareAbsoluteValues b a = - CompareAbsoluteValues a b"
  using CompareDigitsFrom_flip [of b a "NumberOfDigits a"]
  by (auto simp: CompareAbsoluteValues_def)

lemma CompareAbsoluteValues_length:
  "CompareAbsoluteValues a b \<noteq> - 1 \<Longrightarrow> length (digits b) \<le> length (digits a)"
  by (auto simp: CompareAbsoluteValues_def NumberOfDigits_def split: if_splits)

lemma CompareDigitsFrom_val:
  assumes "limbs (digits a)" "limbs (digits b)"
  shows "k \<le> length (digits a) \<Longrightarrow> k \<le> length (digits b) \<Longrightarrow>
         CompareDigitsFrom a b k = sgn (val (take k (digits a)) - val (take k (digits b)))"
proof (induction k)
  case 0
  then show ?case by simp
next
  case (Suc k)
  let ?x = "val (take k (digits a))" and ?y = "val (take k (digits b))"
  let ?d = "digits a ! k" and ?e = "digits b ! k"
  let ?P = "internal_base ^ k"
  have x: "0 \<le> ?x" "?x < ?P" and y: "0 \<le> ?y" "?y < ?P"
    using val_nonneg [of "take k (digits a)"] val_less [of "take k (digits a)"]
      val_nonneg [of "take k (digits b)"] val_less [of "take k (digits b)"]
      assms limbs_take Suc.prems
    by auto
  have va: "val (take (Suc k) (digits a)) = ?x + ?P * ?d"
    and vb: "val (take (Suc k) (digits b)) = ?y + ?P * ?e"
    using Suc.prems by (simp_all add: take_Suc_conv_app_nth val_append)
  have P: "0 < ?P" using base_pos by simp
  show ?case
  proof (cases "?d = ?e")
    case True
    with Suc va vb show ?thesis by (simp add: DigitAt_def)
  next
    case False
    show ?thesis
    proof (cases "?d < ?e")
      case True
      then have "?P * (?d + 1) \<le> ?P * ?e"
        using P by (intro mult_left_mono) simp_all
      then have "?x + ?P * ?d < ?y + ?P * ?e"
        using x y by (simp add: algebra_simps)
      with True False va vb show ?thesis by (simp add: DigitAt_def)
    next
      case ge: False
      with False have "?e < ?d" by simp
      then have "?P * (?e + 1) \<le> ?P * ?d"
        using P by (intro mult_left_mono) simp_all
      then have "?y + ?P * ?e < ?x + ?P * ?d"
        using x y by (simp add: algebra_simps)
      with ge False va vb show ?thesis by (simp add: DigitAt_def)
    qed
  qed
qed

lemma CompareAbsoluteValues_val:
  assumes "limbs (digits a)" "limbs (digits b)"
    and "length (digits a) < length (digits b) \<Longrightarrow> canon (digits b)"
    and "length (digits b) < length (digits a) \<Longrightarrow> canon (digits a)"
  shows "CompareAbsoluteValues a b = sgn (val (digits a) - val (digits b))"
proof -
  consider "length (digits a) < length (digits b)" | "length (digits b) < length (digits a)"
    | "length (digits a) = length (digits b)" by linarith
  then show ?thesis
  proof cases
    case 1
    then have "val (digits a) < val (digits b)"
      using assms length_le_val_le by blast
    with 1 show ?thesis by (simp add: CompareAbsoluteValues_def NumberOfDigits_def)
  next
    case 2
    then have "val (digits b) < val (digits a)"
      using assms length_le_val_le by blast
    with 2 show ?thesis by (simp add: CompareAbsoluteValues_def NumberOfDigits_def)
  next
    case 3
    then show ?thesis
      using CompareDigitsFrom_val [OF assms(1,2), of "length (digits a)"]
      by (simp add: CompareAbsoluteValues_def NumberOfDigits_def)
  qed
qed

lemma CompareAbsoluteValues_canonical:
  "canonical a \<Longrightarrow> canonical b \<Longrightarrow>
   CompareAbsoluteValues a b = sgn (val (digits a) - val (digits b))"
  by (rule CompareAbsoluteValues_val) (simp_all add: canonical_def)

lemma op_lt_canonical:
  assumes "canonical a" "canonical b"
  shows "op_lt a b \<longleftrightarrow> int_of a < int_of b"
proof -
  have c: "CompareAbsoluteValues a b = sgn (val (digits a) - val (digits b))"
    using assms by (rule CompareAbsoluteValues_canonical)
  have sa: "Sign a = sgn (int_of a)" and sb: "Sign b = sgn (int_of b)"
    using assms by (simp_all add: canonical_Sign)
  show ?thesis
  proof (cases "Sign a = Sign b")
    case False
    with sa sb show ?thesis
      by (auto simp: op_lt_def sgn_if split: if_splits)
  next
    case True
    have va: "int_of a = Sign a * val (digits a)" and vb: "int_of b = Sign a * val (digits b)"
      using True by (simp_all add: int_of_def)
    from Sign_cases [of a] show ?thesis
      using True c va vb by (auto simp: op_lt_def sgn_if split: if_splits)
  qed
qed

lemma op_eq_canonical:
  assumes "canonical a" "canonical b"
  shows "op_eq a b \<longleftrightarrow> int_of a = int_of b"
proof -
  have c: "CompareAbsoluteValues a b = sgn (val (digits a) - val (digits b))"
    using assms by (rule CompareAbsoluteValues_canonical)
  have sa: "Sign a = sgn (int_of a)" and sb: "Sign b = sgn (int_of b)"
    using assms by (simp_all add: canonical_Sign)
  show ?thesis
  proof (cases "Sign a = Sign b")
    case False
    with sa sb show ?thesis
      by (auto simp: op_eq_def)
  next
    case True
    have va: "int_of a = Sign a * val (digits a)" and vb: "int_of b = Sign a * val (digits b)"
      using True by (simp_all add: int_of_def)
    have "val (digits a) = 0 \<longleftrightarrow> digits a = []" "val (digits b) = 0 \<longleftrightarrow> digits b = []"
      using assms val_zero_canon by (auto simp: canonical_def)
    with Sign_cases [of a] show ?thesis
      using True c va vb by (auto simp: op_eq_def sgn_if Sign_def NumberOfDigits_def split: if_splits)
  qed
qed

lemma op_gt_canonical: "canonical a \<Longrightarrow> canonical b \<Longrightarrow> op_gt a b \<longleftrightarrow> int_of b < int_of a"
  by (auto simp: op_gt_def op_eq_canonical op_lt_canonical)

lemma op_le_canonical: "canonical a \<Longrightarrow> canonical b \<Longrightarrow> op_le a b \<longleftrightarrow> int_of a \<le> int_of b"
  by (auto simp: op_le_def op_eq_canonical op_lt_canonical)

lemma op_ge_canonical: "canonical a \<Longrightarrow> canonical b \<Longrightarrow> op_ge a b \<longleftrightarrow> int_of b \<le> int_of a"
  by (auto simp: op_ge_def op_lt_canonical)

lemma op_ne_canonical: "canonical a \<Longrightarrow> canonical b \<Longrightarrow> op_ne a b \<longleftrightarrow> int_of a \<noteq> int_of b"
  by (auto simp: op_ne_def op_eq_canonical)

text \<open>The test \<open>*this < 0\<close> reads the sign only.\<close>

lemma op_lt_i64_0: "op_lt_i64 a 0 \<longleftrightarrow> Sign a = - 1"
  using Sign_cases [of a]
  by (auto simp: op_lt_i64_def op_lt_def from_int64_0 Sign_def NumberOfDigits_def
      CompareAbsoluteValues_def)

lemma op_eq_i64_0: "op_eq_i64 a 0 \<longleftrightarrow> digits a = []"
  by (auto simp: op_eq_i64_def op_eq_def from_int64_0 Sign_def NumberOfDigits_def
      CompareAbsoluteValues_def)

lemma op_ne_i64_0: "op_ne_i64 a 0 \<longleftrightarrow> digits a \<noteq> []"
  using op_eq_i64_0 [of a] by (simp add: op_ne_i64_def op_ne_def op_eq_i64_def)

subsection \<open>Multiplication by a short factor\<close>

lemma div_less_bound:
  assumes "0 < b" "x < c * b"
  shows "x div b < (c :: int)"
proof -
  have "b * (x div b) \<le> x"
    using mult_div_mod_eq [of b x] pos_mod_sign [OF assms(1), of x] by linarith
  with assms(2) have "b * (x div b) < b * c" by (simp add: mult.commute)
  with assms(1) show ?thesis by simp
qed

lemma div_ge_bound:
  assumes "0 < b" "c * b \<le> x"
  shows "c \<le> x div (b :: int)"
proof -
  have "x < b * (x div b) + b"
    using mult_div_mod_eq [of b x] pos_mod_bound [OF assms(1), of x] by linarith
  with assms(2) have "b * c < b * (x div b + 1)"
    by (simp add: algebra_simps)
  with assms(1) have "c < x div b + 1" by simp
  then show ?thesis by simp
qed

lemma limb_times_short:
  assumes "0 \<le> d" "d < internal_base" "0 \<le> r" "r \<le> internal_base" "0 \<le> c" "c < internal_base"
  shows "0 \<le> c + d * r" and "c + d * r < internal_base * internal_base"
proof -
  show "0 \<le> c + d * r" using assms by simp
  have "d * r \<le> (internal_base - 1) * internal_base"
    using assms by (intro mult_mono) simp_all
  then show "c + d * r < internal_base * internal_base"
    using assms by (simp add: algebra_simps)
qed

lemma MultiplyByShort_loop_spec:
  "limbs (digits lhs) \<Longrightarrow> 0 \<le> r \<Longrightarrow> r \<le> internal_base \<Longrightarrow>
   0 \<le> carry \<Longrightarrow> carry < internal_base \<Longrightarrow>
    \<exists>ds. digits (MultiplyByShort_loop lhs r i carry res) = digits res @ ds \<and> limbs ds
       \<and> val ds = carry + val (drop i (digits lhs)) * r
       \<and> is_negative (MultiplyByShort_loop lhs r i carry res) = is_negative res"
proof (induction lhs r i carry res rule: MultiplyByShort_loop.induct)
  case (1 lhs rhs i carry result)
  note lim = \<open>limbs (digits lhs)\<close>
  let ?n = "length (digits lhs)"
  show ?case
  proof (cases "i < NumberOfDigits lhs \<or> carry \<noteq> 0")
    case False
    then show ?thesis
      by (subst (1 2) MultiplyByShort_loop.simps) (simp add: NumberOfDigits_def)
  next
    case True
    define digit where "digit = (if i < NumberOfDigits lhs then s64 (carry + s64 (DigitAt lhs i * rhs)) else carry)"
    let ?res' = "PushLeadingDigit result (digit smod internal_base)"
    have eq: "MultiplyByShort_loop lhs rhs i carry result
        = MultiplyByShort_loop lhs rhs (i + 1) (digit sdiv internal_base) ?res'"
      using True by (subst MultiplyByShort_loop.simps) (simp add: digit_def Let_def)
    have dig: "digit = carry + val (drop i (digits lhs)) * rhs - internal_base * (val (drop (i + 1) (digits lhs)) * rhs)
        \<and> 0 \<le> digit \<and> digit < internal_base * internal_base"
    proof (cases "i < ?n")
      case True
      then have b: "0 \<le> digits lhs ! i" "digits lhs ! i < internal_base"
        using lim limbs_nth by blast+
      note bd = limb_times_short [OF b \<open>0 \<le> rhs\<close> \<open>rhs \<le> internal_base\<close> \<open>0 \<le> carry\<close> \<open>carry < internal_base\<close>]
      have "0 \<le> digits lhs ! i * rhs" using b "1.prems" by simp
      with bd "1.prems" have "s64 (digits lhs ! i * rhs) = digits lhs ! i * rhs"
        by (intro s64_small) simp
      moreover have "s64 (carry + digits lhs ! i * rhs) = carry + digits lhs ! i * rhs"
        using bd by (intro s64_small) simp
      moreover have "drop i (digits lhs) = digits lhs ! i # drop (i + 1) (digits lhs)"
        using True by (simp add: Cons_nth_drop_Suc)
      ultimately show ?thesis
        using True bd by (simp add: digit_def NumberOfDigits_def DigitAt_def algebra_simps)
    next
      case False
      have "carry * 1 < internal_base * internal_base"
        using "1.prems" base_gt_1 by (intro mult_strict_mono) simp_all
      with False "1.prems" show ?thesis
        by (simp add: digit_def NumberOfDigits_def)
    qed
    then have d0: "0 \<le> digit" and d1: "digit < internal_base * internal_base" by simp_all
    have q: "digit sdiv internal_base = digit div internal_base"
      and m: "digit smod internal_base = digit mod internal_base"
      using d0 base_pos by (simp_all add: sdiv_nonneg smod_nonneg)
    have q0: "0 \<le> digit div internal_base" and q1: "digit div internal_base < internal_base"
      using d0 d1 base_pos by (simp_all add: pos_imp_zdiv_nonneg_iff div_less_bound)
    from "1.IH" [OF True digit_def] q q0 q1 "1.prems"
    obtain ds where ds: "digits (MultiplyByShort_loop lhs rhs (i + 1) (digit sdiv internal_base) ?res')
          = digits ?res' @ ds" "limbs ds"
        "val ds = digit div internal_base + val (drop (i + 1) (digits lhs)) * rhs"
        "is_negative (MultiplyByShort_loop lhs rhs (i + 1) (digit sdiv internal_base) ?res')
          = is_negative ?res'"
      by auto
    have "val ((digit mod internal_base) # ds)
        = (digit mod internal_base + internal_base * (digit div internal_base))
          + internal_base * (val (drop (i + 1) (digits lhs)) * rhs)"
      using ds(3) by (simp only: val.simps distrib_left add.assoc)
    also have "\<dots> = digit + internal_base * (val (drop (i + 1) (digits lhs)) * rhs)"
      by (simp only: mod_mult_div_eq)
    also have "\<dots> = carry + val (drop i (digits lhs)) * rhs"
      using dig by simp
    finally have "val ((digit mod internal_base) # ds) = carry + val (drop i (digits lhs)) * rhs" .
    moreover have "limbs ((digit mod internal_base) # ds)"
      using ds(2) base_pos by simp
    ultimately show ?thesis
      using ds(1,4) eq m
      by (intro exI [of _ "(digit mod internal_base) # ds"]) (simp add: PushLeadingDigit_def)
  qed
qed

lemma MultiplyByShort_spec:
  assumes "limbs (digits lhs)" "0 \<le> r" "r \<le> internal_base"
  shows "canonical (MultiplyByShort lhs r)"
    and "val (digits (MultiplyByShort lhs r)) = val (digits lhs) * r"
    and "is_negative (MultiplyByShort lhs r) = (Sign lhs = - 1)"
proof -
  let ?z = "\<lparr>digits = [], is_negative = False\<rparr>"
  from MultiplyByShort_loop_spec [OF assms, of 0 0 ?z] base_pos
  obtain ds where ds: "digits (MultiplyByShort_loop lhs r 0 0 ?z) = ds" "limbs ds"
      "val ds = val (digits lhs) * r"
    by auto
  have d: "digits (MultiplyByShort lhs r) = digits (RemoveZeroes (MultiplyByShort_loop lhs r 0 0 ?z))"
    by (simp add: MultiplyByShort_def)
  show "canonical (MultiplyByShort lhs r)"
    using ds by (simp add: canonical_def d RemoveZeroes_limbs)
  show "val (digits (MultiplyByShort lhs r)) = val (digits lhs) * r"
    using ds by (simp add: d)
  show "is_negative (MultiplyByShort lhs r) = (Sign lhs = - 1)"
    by (simp add: MultiplyByShort_def op_lt_i64_0)
qed

subsection \<open>The addition loop\<close>

lemma smod_mod_eq: "0 < b \<Longrightarrow> (x smod b) mod b = x mod (b :: int)"
proof -
  have "x smod b = x - x sdiv b * b"
    by (simp add: minus_sdiv_mult_eq_smod)
  then show ?thesis by (simp add: mod_diff_right_eq [symmetric])
qed

lemma abs_smod_less: "0 < b \<Longrightarrow> \<bar>x smod b\<bar> < (b :: int)"
  by (simp add: abs_smod)

lemma RemainderByBase_mod: "RemainderByBase x = x mod internal_base"
proof -
  let ?m = "x smod internal_base"
  have b: "\<bar>?m\<bar> < internal_base" using base_pos by (rule abs_smod_less)
  then have "s64 (?m + internal_base) = ?m + internal_base"
    by (intro s64_id) (simp_all add: internal_base_def)
  moreover have "(?m + internal_base) smod internal_base = (?m + internal_base) mod internal_base"
    using b base_pos by (intro smod_nonneg) simp_all
  ultimately show ?thesis
    using base_pos by (simp add: RemainderByBase_def smod_mod_eq)
qed

lemma mult_sdiv_cancel:
  assumes "0 < b"
  shows "(b * q) sdiv b = (q :: int)"
proof -
  have "\<bar>b * q\<bar> div \<bar>b\<bar> = \<bar>q\<bar>"
    using assms by (simp add: abs_mult)
  moreover have "sgn (b * q) * sgn b = sgn q"
    using assms by (simp add: sgn_mult)
  ultimately have "(b * q) sdiv b = sgn q * \<bar>q\<bar>"
    by (simp add: signed_divide_int_def)
  then show ?thesis by (simp add: sgn_if)
qed

lemma carry_div:
  assumes "\<bar>x\<bar> \<le> 3 * internal_base"
  shows "s64 (x - x mod internal_base) sdiv internal_base = x div internal_base"
proof -
  have m: "0 \<le> x mod internal_base" "x mod internal_base < internal_base"
    using base_pos by simp_all
  then have "s64 (x - x mod internal_base) = x - x mod internal_base"
    using assms by (intro s64_id) (simp_all add: internal_base_def)
  moreover have "x - x mod internal_base = internal_base * (x div internal_base)"
    by (simp add: minus_mod_eq_mult_div)
  moreover have "(internal_base * (x div internal_base)) sdiv internal_base = x div internal_base"
    using base_pos by (rule mult_sdiv_cancel)
  ultimately show ?thesis by simp
qed

lemma bindr_simps [simp]:
  "bindr (Ok v) f = f v"
  "bindr (Throw e) f = Throw e"
  "bindr None f = None"
  by (simp_all add: bindr_def)

lemma int_of_alt: "int_of c = (if is_negative c then - val (digits c) else val (digits c))"
  by (simp add: int_of_def Sign_def NumberOfDigits_def)

lemma Sign_val_bound: "limbs (digits b) \<Longrightarrow> - val (digits b) \<le> Sign b * val (digits b)
    \<and> Sign b * val (digits b) \<le> val (digits b)"
  using Sign_cases [of b] val_nonneg [of "digits b"] by auto

lemma op_add_loop_step:
  assumes lim: "limbs (digits lhs)" "limbs (digits rhs)"
    and c: "carry = - 1 \<or> carry = 0 \<or> carry = 1"
    and go: "i < length (digits lhs) \<or> carry \<noteq> 0"
    and digit: "digit = carry + (if i < length (digits lhs) then digits lhs ! i else 0)
             + (if i < length (digits rhs) then Sign rhs * (digits rhs ! i) else 0)"
  shows "op_add_loop lhs rhs i carry res
       = op_add_loop lhs rhs (i + 1) (digit div internal_base)
           (PushLeadingDigit res (digit mod internal_base))"
    and "- internal_base \<le> digit" and "digit < 2 * internal_base"
proof -
  define a where "a = (if i < length (digits lhs) then digits lhs ! i else 0)"
  define b where "b = (if i < length (digits rhs) then digits rhs ! i else 0)"
  have a: "0 \<le> a" "a < internal_base" and b: "0 \<le> b" "b < internal_base"
    using lim limbs_nth base_pos by (auto simp: a_def b_def)
  have sb: "- b \<le> Sign rhs * b" "Sign rhs * b \<le> b"
    using Sign_cases [of rhs] b by auto
  have d: "digit = carry + a + Sign rhs * b"
    by (simp add: digit a_def b_def)
  show lo: "- internal_base \<le> digit" and hi: "digit < 2 * internal_base"
    using a b sb c d by auto
  have s1: "s64 (carry + a) = carry + a"
    using a c by (intro s64_id) (auto simp: internal_base_def)
  have s2: "s64 (Sign rhs * b) = Sign rhs * b"
    using b sb by (intro s64_id) (auto simp: internal_base_def)
  have s3: "s64 (carry + a + Sign rhs * b) = carry + a + Sign rhs * b"
    using a b sb c by (intro s64_id) (auto simp: internal_base_def)
  have s4: "s64 (carry + Sign rhs * b) = carry + Sign rhs * b"
    using b sb c by (intro s64_id) (auto simp: internal_base_def)
  define digit1 where "digit1 = (if i < NumberOfDigits lhs then s64 (carry + DigitAt lhs i) else carry)"
  define digit2 where "digit2 = (if i < NumberOfDigits rhs then s64 (digit1 + SignedDigitAt rhs i) else digit1)"
  have d1: "digit1 = carry + a"
    using s1 unfolding digit1_def a_def NumberOfDigits_def DigitAt_def
    by (simp split: if_splits)
  have b0: "\<not> i < length (digits rhs) \<Longrightarrow> b = 0"
    by (simp add: b_def)
  have bi: "i < length (digits rhs) \<Longrightarrow> digits rhs ! i = b"
    by (simp add: b_def)
  have d2: "digit2 = digit"
    using s2 s3 d d1 b0 bi
    by (cases "i < length (digits rhs)")
      (simp_all add: digit2_def NumberOfDigits_def DigitAt_def SignedDigitAt_def)
  have cd: "s64 (digit - digit mod internal_base) sdiv internal_base = digit div internal_base"
    using lo hi base_pos by (intro carry_div) auto
  have "op_add_loop lhs rhs i carry res
      = op_add_loop lhs rhs (i + 1)
          (s64 (digit2 - last (digits (PushLeadingDigit res (RemainderByBase digit2)))) sdiv internal_base)
          (PushLeadingDigit res (RemainderByBase digit2))"
    using go by (subst op_add_loop.simps) (simp add: Let_def digit1_def digit2_def NumberOfDigits_def)
  then show "op_add_loop lhs rhs i carry res
       = op_add_loop lhs rhs (i + 1) (digit div internal_base)
           (PushLeadingDigit res (digit mod internal_base))"
    using cd by (simp add: d2 RemainderByBase_mod PushLeadingDigit_def)
qed

lemma op_add_loop_stop:
  "\<not> i < length (digits lhs) \<Longrightarrow> op_add_loop lhs rhs i 0 res = Ok res"
  by (subst op_add_loop.simps) (simp add: NumberOfDigits_def)

lemma op_add_loop_spec:
  assumes lim: "limbs (digits lhs)" "limbs (digits rhs)"
    and len: "length (digits rhs) \<le> length (digits lhs)"
  shows "i \<le> length (digits lhs) \<Longrightarrow> carry = - 1 \<or> carry = 0 \<or> carry = 1 \<Longrightarrow>
     0 \<le> carry + val (drop i (digits lhs)) + Sign rhs * val (drop i (digits rhs)) \<Longrightarrow>
     \<exists>ds. op_add_loop lhs rhs i carry res = Ok (res\<lparr>digits := digits res @ ds\<rparr>) \<and> limbs ds
        \<and> val ds = carry + val (drop i (digits lhs)) + Sign rhs * val (drop i (digits rhs))"
proof (induction "length (digits lhs) - i" arbitrary: i carry res)
  case 0
  then have i: "i = length (digits lhs)" by simp
  with len have dr: "drop i (digits lhs) = []" "drop i (digits rhs) = []" by simp_all
  with 0 have c: "carry = 0 \<or> carry = 1" by auto
  show ?case
  proof (cases "carry = 0")
    case True
    with i dr show ?thesis
      by (intro exI [of _ "[]"]) (simp add: op_add_loop_stop)
  next
    case False
    with c have c1: "carry = 1" by simp
    have "op_add_loop lhs rhs i carry res
        = op_add_loop lhs rhs (i + 1) (1 div internal_base) (PushLeadingDigit res (1 mod internal_base))"
      using i len c1 by (intro op_add_loop_step(1) [OF lim]) simp_all
    also have "\<dots> = Ok (PushLeadingDigit res 1)"
      using i base_gt_1 by (simp add: op_add_loop_stop)
    finally show ?thesis
      using dr c1 base_gt_1
      by (intro exI [of _ "[1]"]) (simp add: PushLeadingDigit_def)
  qed
next
  case (Suc k)
  then have i: "i < length (digits lhs)" by simp
  define digit where "digit = carry + (if i < length (digits lhs) then digits lhs ! i else 0)
             + (if i < length (digits rhs) then Sign rhs * (digits rhs ! i) else 0)"
  define R where "R = val (drop (i + 1) (digits lhs)) + Sign rhs * val (drop (i + 1) (digits rhs))"
  let ?res' = "PushLeadingDigit res (digit mod internal_base)"
  have step: "op_add_loop lhs rhs i carry res
       = op_add_loop lhs rhs (i + 1) (digit div internal_base) ?res'"
    and lo: "- internal_base \<le> digit" and hi: "digit < 2 * internal_base"
    using op_add_loop_step [OF lim Suc.prems(2) _ digit_def] i by simp_all
  have T: "carry + val (drop i (digits lhs)) + Sign rhs * val (drop i (digits rhs))
      = digit + internal_base * R"
  proof (cases "i < length (digits rhs)")
    case True
    with i have "drop i (digits lhs) = digits lhs ! i # drop (i + 1) (digits lhs)"
      "drop i (digits rhs) = digits rhs ! i # drop (i + 1) (digits rhs)"
      by (simp_all add: Cons_nth_drop_Suc)
    with True i show ?thesis by (simp add: digit_def R_def algebra_simps)
  next
    case False
    with i have "drop i (digits lhs) = digits lhs ! i # drop (i + 1) (digits lhs)"
      "drop i (digits rhs) = []" "drop (i + 1) (digits rhs) = []"
      by (simp_all add: Cons_nth_drop_Suc)
    with False i show ?thesis by (simp add: digit_def R_def algebra_simps)
  qed
  have dm: "digit = digit mod internal_base + internal_base * (digit div internal_base)"
    by (simp only: mod_mult_div_eq)
  have T': "carry + val (drop i (digits lhs)) + Sign rhs * val (drop i (digits rhs))
      = digit mod internal_base + internal_base * (digit div internal_base + R)"
    using T dm by (simp add: algebra_simps)
  have m: "0 \<le> digit mod internal_base" "digit mod internal_base < internal_base"
    using base_pos by simp_all
  have cr: "- 1 \<le> digit div internal_base" "digit div internal_base < 2"
    using lo hi base_pos by (auto intro: div_ge_bound div_less_bound)
  then have c': "digit div internal_base = - 1 \<or> digit div internal_base = 0 \<or> digit div internal_base = 1"
    by auto
  have "internal_base * (- 1) < internal_base * (digit div internal_base + R)"
    using T' Suc.prems(3) m by simp
  then have "- 1 < digit div internal_base + R"
    using base_pos mult_less_cancel_left_pos by blast
  then have nn: "0 \<le> digit div internal_base + val (drop (i + 1) (digits lhs))
        + Sign rhs * val (drop (i + 1) (digits rhs))"
    by (simp add: R_def)
  have "\<exists>ds. op_add_loop lhs rhs (i + 1) (digit div internal_base) ?res'
        = Ok (?res'\<lparr>digits := digits ?res' @ ds\<rparr>) \<and> limbs ds
      \<and> val ds = digit div internal_base + val (drop (i + 1) (digits lhs))
            + Sign rhs * val (drop (i + 1) (digits rhs))"
  proof (rule Suc.hyps(1))
    show "k = length (digits lhs) - (i + 1)" using Suc.hyps(2) by simp
    show "i + 1 \<le> length (digits lhs)" using i by simp
    show "digit div internal_base = - 1 \<or> digit div internal_base = 0 \<or> digit div internal_base = 1"
      by (rule c')
    show "0 \<le> digit div internal_base + val (drop (i + 1) (digits lhs))
        + Sign rhs * val (drop (i + 1) (digits rhs))"
      by (rule nn)
  qed
  then obtain ds where ds: "op_add_loop lhs rhs (i + 1) (digit div internal_base) ?res'
        = Ok (?res'\<lparr>digits := digits ?res' @ ds\<rparr>)" "limbs ds"
      "val ds = digit div internal_base + R"
    unfolding R_def by (auto simp: add.assoc)
  have "val (digit mod internal_base # ds)
      = carry + val (drop i (digits lhs)) + Sign rhs * val (drop i (digits rhs))"
    using ds(3) T' by simp
  moreover have "limbs (digit mod internal_base # ds)"
    using ds(2) m by simp
  ultimately show ?case
    using step ds(1)
    by (intro exI [of _ "digit mod internal_base # ds"]) (simp add: PushLeadingDigit_def)
qed

lemma op_add_core:
  assumes lim: "limbs (digits a)" "limbs (digits b)"
    and cmp: "CompareAbsoluteValues a b \<noteq> - 1"
    and sa: "Sign a \<noteq> - 1"
    and nn: "0 \<le> val (digits a) + Sign b * val (digits b)"
  shows "\<exists>c. op_add a b = Ok c \<and> canonical c \<and> \<not> is_negative c
            \<and> val (digits c) = val (digits a) + Sign b * val (digits b)"
proof -
  let ?z = "\<lparr>digits = [], is_negative = False\<rparr>"
  have len: "length (digits b) \<le> length (digits a)"
    using cmp by (rule CompareAbsoluteValues_length)
  from op_add_loop_spec [OF lim len, of 0 0 ?z] nn
  obtain ds where ds: "op_add_loop a b 0 0 ?z = Ok (?z\<lparr>digits := ds\<rparr>)" "limbs ds"
      "val ds = val (digits a) + Sign b * val (digits b)"
    by auto
  have "op_add a b = Ok (RemoveZeroes (?z\<lparr>digits := ds\<rparr>))"
    using cmp sa ds(1) by (subst op_add.simps) (simp add: op_lt_i64_0)
  moreover have "canonical (RemoveZeroes (?z\<lparr>digits := ds\<rparr>))"
    using ds(2) by (intro RemoveZeroes_canonical) simp
  ultimately show ?thesis
    using ds(3) by simp
qed

lemma op_add_spec:
  assumes lim: "limbs (digits a)" "limbs (digits b)"
    and ok: "(Sign a \<noteq> - 1 \<and> Sign b \<noteq> - 1) \<or> ordered_abs a b"
  shows "\<exists>c. op_add a b = Ok c \<and> canonical c \<and> int_of c = int_of a + int_of b"
proof -
  note va = val_nonneg [OF lim(1)] and vb = val_nonneg [OF lim(2)]
  note ba = Sign_val_bound [OF lim(1)] and bb = Sign_val_bound [OF lim(2)]
  have plain: "\<And>x. Sign x \<noteq> - 1 \<Longrightarrow> int_of x = val (digits x)"
    by (auto simp: int_of_def Sign_def NumberOfDigits_def split: if_splits)
  have minus: "\<And>x. Sign x = - 1 \<Longrightarrow> int_of x = - val (digits x)"
    by (simp add: int_of_def)
  show ?thesis
  proof (cases "CompareAbsoluteValues a b = - 1")
    case True
    then have flip: "CompareAbsoluteValues b a \<noteq> - 1"
      using CompareAbsoluteValues_flip [of a b] by simp
    have swap: "op_add a b = op_add b a"
      using True by (subst op_add.simps) simp
    show ?thesis
    proof (cases "Sign b = - 1")
      case False
      have "0 \<le> val (digits b) + Sign a * val (digits a)"
        using ok True False ba va vb Sign_cases [of a] by (auto simp: ordered_abs_def)
      from op_add_core [OF lim(2,1) flip False this]
      obtain c where c: "op_add b a = Ok c" "canonical c" "\<not> is_negative c"
          "val (digits c) = val (digits b) + Sign a * val (digits a)"
        by blast
      then have "int_of c = int_of a + int_of b"
        using plain [OF False] by (simp add: int_of_alt [of c]) (simp add: int_of_def)
      with c swap show ?thesis by simp
    next
      case neg: True
      with ok True have le: "val (digits a) \<le> val (digits b)"
        by (simp add: ordered_abs_def)
      have "0 \<le> val (digits (op_neg b)) + Sign (op_neg a) * val (digits (op_neg a))"
        using le ba by simp
      moreover have "CompareAbsoluteValues (op_neg b) (op_neg a) \<noteq> - 1"
        using flip by simp
      moreover have "Sign (op_neg b) \<noteq> - 1" using neg by simp
      ultimately obtain c where c: "op_add (op_neg b) (op_neg a) = Ok c" "canonical c"
          "\<not> is_negative c"
          "val (digits c) = val (digits (op_neg b)) + Sign (op_neg a) * val (digits (op_neg a))"
        using op_add_core [of "op_neg b" "op_neg a"] lim by auto
      have "op_add b a = Ok (op_neg c)"
        using flip neg c(1) by (subst op_add.simps) (simp add: op_lt_i64_0)
      moreover have "int_of (op_neg c) = int_of a + int_of b"
        using c(3,4) minus [OF neg] by (simp add: int_of_alt [of c]) (simp add: int_of_def)
      ultimately show ?thesis using swap c(2) by simp
    qed
  next
    case False
    show ?thesis
    proof (cases "Sign a = - 1")
      case nonneg: False
      have "0 \<le> val (digits a) + Sign b * val (digits b)"
        using ok False nonneg bb va vb Sign_cases [of b] by (auto simp: ordered_abs_def)
      from op_add_core [OF lim False nonneg this]
      obtain c where c: "op_add a b = Ok c" "canonical c" "\<not> is_negative c"
          "val (digits c) = val (digits a) + Sign b * val (digits b)"
        by blast
      then have "int_of c = int_of a + int_of b"
        using plain [OF nonneg] by (simp add: int_of_alt [of c]) (simp add: int_of_def)
      with c show ?thesis by simp
    next
      case neg: True
      with ok False have le: "val (digits b) \<le> val (digits a)"
        by (simp add: ordered_abs_def)
      have "0 \<le> val (digits (op_neg a)) + Sign (op_neg b) * val (digits (op_neg b))"
        using le bb by simp
      moreover have "CompareAbsoluteValues (op_neg a) (op_neg b) \<noteq> - 1"
        using False by simp
      moreover have "Sign (op_neg a) \<noteq> - 1" using neg by simp
      ultimately obtain c where c: "op_add (op_neg a) (op_neg b) = Ok c" "canonical c"
          "\<not> is_negative c"
          "val (digits c) = val (digits (op_neg a)) + Sign (op_neg b) * val (digits (op_neg b))"
        using op_add_core [of "op_neg a" "op_neg b"] lim by auto
      have "op_add a b = Ok (op_neg c)"
        using False neg c(1) by (subst op_add.simps) (simp add: op_lt_i64_0)
      moreover have "int_of (op_neg c) = int_of a + int_of b"
        using c(3,4) minus [OF neg] by (simp add: int_of_alt [of c]) (simp add: int_of_def)
      ultimately show ?thesis using c(2) by simp
    qed
  qed
qed

lemma ordered_abs_canonical: "canonical a \<Longrightarrow> canonical b \<Longrightarrow> ordered_abs a b"
  by (simp add: ordered_abs_def CompareAbsoluteValues_canonical sgn_if)

lemma ordered_abs_op_neg [simp]: "ordered_abs a (op_neg b) = ordered_abs a b"
  "ordered_abs (op_neg a) b = ordered_abs a b"
  by (simp_all add: ordered_abs_def)

lemma op_add_canonical:
  "canonical a \<Longrightarrow> canonical b \<Longrightarrow>
   \<exists>c. op_add a b = Ok c \<and> canonical c \<and> int_of c = int_of a + int_of b"
  by (rule op_add_spec) (simp_all add: canonical_def ordered_abs_canonical)

lemma op_sub_spec:
  assumes lim: "limbs (digits a)" "limbs (digits b)" and ok: "ordered_abs a b"
  shows "\<exists>c. op_sub a b = Ok c \<and> canonical c \<and> int_of c = int_of a - int_of b"
proof (cases "Sign a = - 1")
  case True
  from op_add_spec [of "op_neg a" b] lim ok
  obtain c where c: "op_add (op_neg a) b = Ok c" "canonical c" "int_of c = int_of (op_neg a) + int_of b"
    by auto
  then show ?thesis
    using True by (simp add: op_sub_def op_lt_i64_0)
next
  case False
  from op_add_spec [of a "op_neg b"] lim ok
  obtain c where c: "op_add a (op_neg b) = Ok c" "canonical c" "int_of c = int_of a + int_of (op_neg b)"
    by auto
  then show ?thesis
    using False by (simp add: op_sub_def op_lt_i64_0)
qed

lemma op_sub_canonical:
  "canonical a \<Longrightarrow> canonical b \<Longrightarrow>
   \<exists>c. op_sub a b = Ok c \<and> canonical c \<and> int_of c = int_of a - int_of b"
  by (rule op_sub_spec) (simp_all add: canonical_def ordered_abs_canonical)

subsection \<open>Multiplication\<close>

lemma int_of_nonneg: "Sign x \<noteq> - 1 \<Longrightarrow> int_of x = val (digits x)"
  by (auto simp: int_of_def Sign_def NumberOfDigits_def split: if_splits)

lemma int_of_neg: "Sign x = - 1 \<Longrightarrow> int_of x = - val (digits x)"
  by (simp add: int_of_def)

lemma Sign_flag_False: "\<not> is_negative x \<Longrightarrow> Sign x \<noteq> - 1"
  by (simp add: Sign_def)

lemma canonical_Sign_nonneg: "canonical c \<Longrightarrow> 0 \<le> int_of c \<Longrightarrow> Sign c \<noteq> - 1"
  by (simp add: canonical_Sign sgn_if)

lemma op_mul_loop_spec:
  assumes lim: "limbs (digits a)" "limbs (digits b)" and sa: "Sign a \<noteq> - 1"
  shows "i \<le> length (digits b) \<Longrightarrow> canonical result \<Longrightarrow> Sign result \<noteq> - 1 \<Longrightarrow>
    \<exists>c. op_mul_loop a b i result = Ok c \<and> canonical c \<and> Sign c \<noteq> - 1
      \<and> int_of c = int_of result + val (digits a) * (internal_base ^ i * val (drop i (digits b)))"
proof (induction "length (digits b) - i" arbitrary: i result)
  case 0
  then have "i = length (digits b)" by simp
  moreover from this have "op_mul_loop a b i result = Ok result"
    by (subst op_mul_loop.simps) (simp add: NumberOfDigits_def)
  ultimately show ?case using 0 by simp
next
  case (Suc k)
  then have i: "i < length (digits b)" by simp
  let ?d = "digits b ! i"
  let ?m = "MultiplyByShort a ?d"
  let ?s = "InsertLeastSignificantDigits ?m 0 i"
  have d: "0 \<le> ?d" "?d \<le> internal_base"
    using limbs_nth [OF lim(2) i] by simp_all
  note m = MultiplyByShort_spec [OF lim(1) d]
  have s: "limbs (digits ?s)" "val (digits ?s) = internal_base ^ i * (val (digits a) * ?d)"
    "\<not> is_negative ?s"
    using m sa by (simp_all add: InsertLeastSignificantDigits_def canonical_def val_append)
  have "\<exists>c. op_add result ?s = Ok c \<and> canonical c \<and> int_of c = int_of result + int_of ?s"
    using Suc.prems s by (intro op_add_spec) (simp_all add: canonical_def Sign_flag_False)
  then obtain c where c: "op_add result ?s = Ok c" "canonical c"
      "int_of c = int_of result + int_of ?s"
    by blast
  have vs: "int_of ?s = internal_base ^ i * (val (digits a) * ?d)"
    using s by (simp add: int_of_nonneg Sign_flag_False)
  have "0 \<le> int_of result"
    using Suc.prems by (simp add: int_of_nonneg val_nonneg canonical_def)
  moreover have "0 \<le> val (digits ?s)"
    using s(1) by (rule val_nonneg)
  then have "0 \<le> int_of ?s"
    using int_of_nonneg [OF Sign_flag_False [OF s(3)]] by simp
  ultimately have sc: "Sign c \<noteq> - 1"
    using c by (intro canonical_Sign_nonneg) simp_all
  have "\<exists>c'. op_mul_loop a b (i + 1) c = Ok c' \<and> canonical c' \<and> Sign c' \<noteq> - 1
      \<and> int_of c' = int_of c + val (digits a) * (internal_base ^ (i + 1) * val (drop (i + 1) (digits b)))"
  proof (rule Suc.hyps(1))
    show "k = length (digits b) - (i + 1)" using Suc.hyps(2) by simp
    show "i + 1 \<le> length (digits b)" using i by simp
    show "canonical c" by (rule c(2))
    show "Sign c \<noteq> - 1" by (rule sc)
  qed
  then obtain c' where c': "op_mul_loop a b (i + 1) c = Ok c'" "canonical c'" "Sign c' \<noteq> - 1"
      "int_of c' = int_of c + val (digits a) * (internal_base ^ (i + 1) * val (drop (i + 1) (digits b)))"
    by blast
  have "op_mul_loop a b i result = Ok c'"
    using i c(1) c'(1) by (subst op_mul_loop.simps) (simp add: NumberOfDigits_def DigitAt_def)
  moreover have "drop i (digits b) = ?d # drop (i + 1) (digits b)"
    using i by (simp add: Cons_nth_drop_Suc)
  then have "int_of c' = int_of result + val (digits a) * (internal_base ^ i * val (drop i (digits b)))"
    using c'(4) c(3) vs by (simp add: algebra_simps)
  ultimately show ?case using c'(2,3) by simp
qed

lemma op_mul_nonneg:
  assumes lim: "limbs (digits a)" "limbs (digits b)" and sa: "Sign a \<noteq> - 1" and sb: "Sign b \<noteq> - 1"
  shows "\<exists>c. op_mul a b = Ok c \<and> canonical c \<and> int_of c = int_of a * int_of b"
proof -
  from op_mul_loop_spec [OF lim sa, of 0 "from_int64 0"]
  obtain c where c: "op_mul_loop a b 0 (from_int64 0) = Ok c" "canonical c" "Sign c \<noteq> - 1"
      "int_of c = val (digits a) * val (digits b)"
    by auto
  have "op_mul a b = Ok (RemoveZeroes c)"
    using sa sb c(1) by (subst op_mul.simps) (simp add: op_lt_i64_0)
  moreover have "RemoveZeroes c = c"
    using c(2) by (simp add: RemoveZeroes_id canonical_def)
  ultimately show ?thesis
    using c(2,4) sa sb by (simp add: int_of_nonneg)
qed

lemma op_mul_lhs_nonneg:
  assumes lim: "limbs (digits a)" "limbs (digits b)" and sa: "Sign a \<noteq> - 1"
  shows "\<exists>c. op_mul a b = Ok c \<and> canonical c \<and> int_of c = int_of a * int_of b"
proof (cases "Sign b = - 1")
  case False
  with assms show ?thesis by (rule op_mul_nonneg)
next
  case True
  from op_mul_nonneg [of a "op_neg b"] lim sa True
  obtain c where c: "op_mul a (op_neg b) = Ok c" "canonical c"
      "int_of c = int_of a * int_of (op_neg b)"
    by auto
  have "op_mul a b = Ok (op_neg c)"
    using sa True c(1) by (subst op_mul.simps) (simp add: op_lt_i64_0)
  with c(2,3) show ?thesis by simp
qed

lemma op_mul_spec:
  assumes lim: "limbs (digits a)" "limbs (digits b)"
  shows "\<exists>c. op_mul a b = Ok c \<and> canonical c \<and> int_of c = int_of a * int_of b"
proof (cases "Sign a = - 1")
  case False
  with assms show ?thesis by (rule op_mul_lhs_nonneg)
next
  case True
  from op_mul_lhs_nonneg [of "op_neg a" b] lim True
  obtain c where c: "op_mul (op_neg a) b = Ok c" "canonical c"
      "int_of c = int_of (op_neg a) * int_of b"
    by auto
  have "op_mul a b = Ok (op_neg c)"
    using True c(1) by (subst op_mul.simps) (simp add: op_lt_i64_0)
  with c(2,3) show ?thesis by simp
qed

lemma op_mul_canonical:
  "canonical a \<Longrightarrow> canonical b \<Longrightarrow>
   \<exists>c. op_mul a b = Ok c \<and> canonical c \<and> int_of c = int_of a * int_of b"
  by (rule op_mul_spec) (simp_all add: canonical_def)

subsection \<open>The digit of a division step\<close>

lemma CompareAbsoluteValues_ge:
  assumes "limbs (digits a)" "limbs (digits b)"
    and "length (digits a) < length (digits b) \<Longrightarrow> canon (digits b)"
    and "val (digits b) \<le> val (digits a)"
  shows "CompareAbsoluteValues a b \<noteq> - 1"
proof -
  consider "length (digits a) < length (digits b)" | "length (digits b) < length (digits a)"
    | "length (digits a) = length (digits b)" by linarith
  then show ?thesis
  proof cases
    case 1
    then have "val (digits a) < val (digits b)"
      using assms length_le_val_le by blast
    with assms(4) show ?thesis by simp
  next
    case 2
    then show ?thesis by (simp add: CompareAbsoluteValues_def NumberOfDigits_def)
  next
    case 3
    then show ?thesis
      using CompareDigitsFrom_val [OF assms(1,2), of "length (digits a)"] assms(4)
      by (simp add: CompareAbsoluteValues_def NumberOfDigits_def sgn_if)
  qed
qed

lemma op_gt_MultiplyByShort:
  assumes rhs: "canonical rhs" "Sign rhs = 1"
    and lhs: "remainder_form lhs"
    and m: "1 \<le> m" "m < internal_base"
  shows "op_gt (MultiplyByShort rhs m) lhs \<longleftrightarrow> val (digits lhs) < val (digits rhs) * m"
proof -
  let ?p = "MultiplyByShort rhs m"
  have lim: "limbs (digits rhs)" using rhs by (simp add: canonical_def)
  have p: "canonical ?p" "val (digits ?p) = val (digits rhs) * m" "\<not> is_negative ?p"
    using MultiplyByShort_spec [OF lim, of m] m rhs by simp_all
  have "digits rhs \<noteq> []" using rhs by (auto simp: Sign_def NumberOfDigits_def)
  then have "0 < val (digits rhs)"
    using rhs by (simp add: canonical_def val_pos_canon)
  then have "0 < val (digits ?p)" using m p by simp
  then have ne: "digits ?p \<noteq> []" by auto
  then have sp: "Sign ?p = 1" using p by (simp add: Sign_nonempty)
  have sl: "Sign lhs = 1" using lhs by (simp add: remainder_form_def Sign_nonempty)
  have "length (digits ?p) < length (digits lhs) \<Longrightarrow> canon (digits lhs)"
    using ne lhs by (cases "digits ?p") (auto simp: remainder_form_def)
  then have "CompareAbsoluteValues ?p lhs = sgn (val (digits ?p) - val (digits lhs))"
    using p lhs by (intro CompareAbsoluteValues_val) (simp_all add: canonical_def remainder_form_def)
  then show ?thesis
    using sp sl p(2) by (auto simp: op_gt_def op_eq_def op_lt_def sgn_if)
qed

lemma GuessDigit_loop_spec:
  assumes rhs: "canonical rhs" "Sign rhs = 1" and lhs: "remainder_form lhs"
  shows "0 \<le> l \<Longrightarrow> l < u \<Longrightarrow> u \<le> internal_base \<Longrightarrow>
     l * val (digits rhs) \<le> val (digits lhs) \<Longrightarrow> val (digits lhs) < u * val (digits rhs) \<Longrightarrow>
     l \<le> GuessDigit_loop lhs rhs l u \<and> GuessDigit_loop lhs rhs l u < u
     \<and> GuessDigit_loop lhs rhs l u * val (digits rhs) \<le> val (digits lhs)
     \<and> val (digits lhs) < (GuessDigit_loop lhs rhs l u + 1) * val (digits rhs)"
proof (induction "nat (u - l)" arbitrary: l u rule: less_induct)
  case less
  show ?case
  proof (cases "l + 1 < u")
    case False
    with less.prems have "u = l + 1" by simp
    moreover have "GuessDigit_loop lhs rhs l u = l"
      using False by (subst GuessDigit_loop.simps) simp
    ultimately show ?thesis using less.prems by simp
  next
    case True
    define m where "m = (l + u) sdiv 2"
    have md: "m = (l + u) div 2"
      using less.prems by (simp add: m_def sdiv_nonneg)
    with True have mb: "l < m" "m < u" by simp_all
    show ?thesis
    proof (cases "op_gt (MultiplyByShort rhs m) lhs")
      case gt: True
      then have "val (digits lhs) < m * val (digits rhs)"
        using op_gt_MultiplyByShort [OF rhs lhs, of m] mb less.prems by (simp add: mult.commute)
      moreover have "nat (m - l) < nat (u - l)" using mb by simp
      ultimately have "l \<le> GuessDigit_loop lhs rhs l m \<and> GuessDigit_loop lhs rhs l m < m
          \<and> GuessDigit_loop lhs rhs l m * val (digits rhs) \<le> val (digits lhs)
          \<and> val (digits lhs) < (GuessDigit_loop lhs rhs l m + 1) * val (digits rhs)"
        using less.prems mb by (intro less.hyps) simp_all
      moreover have "GuessDigit_loop lhs rhs l u = GuessDigit_loop lhs rhs l m"
        using True gt by (subst GuessDigit_loop.simps) (simp add: m_def Let_def)
      ultimately show ?thesis using mb by simp
    next
      case ngt: False
      then have "m * val (digits rhs) \<le> val (digits lhs)"
        using op_gt_MultiplyByShort [OF rhs lhs, of m] mb less.prems by (simp add: mult.commute)
      moreover have "nat (u - m) < nat (u - l)" using mb by simp
      ultimately have "m \<le> GuessDigit_loop lhs rhs m u \<and> GuessDigit_loop lhs rhs m u < u
          \<and> GuessDigit_loop lhs rhs m u * val (digits rhs) \<le> val (digits lhs)
          \<and> val (digits lhs) < (GuessDigit_loop lhs rhs m u + 1) * val (digits rhs)"
        using less.prems mb by (intro less.hyps) simp_all
      moreover have "GuessDigit_loop lhs rhs l u = GuessDigit_loop lhs rhs m u"
        using True ngt by (subst GuessDigit_loop.simps) (simp add: m_def Let_def)
      ultimately show ?thesis using mb by simp
    qed
  qed
qed

lemma GuessDigit_spec:
  assumes rhs: "canonical rhs" "Sign rhs = 1" and lhs: "remainder_form lhs"
    and bound: "val (digits lhs) < internal_base * val (digits rhs)"
  shows "0 \<le> GuessDigit lhs rhs" and "GuessDigit lhs rhs < internal_base"
    and "GuessDigit lhs rhs * val (digits rhs) \<le> val (digits lhs)"
    and "val (digits lhs) < (GuessDigit lhs rhs + 1) * val (digits rhs)"
proof -
  have "0 \<le> val (digits lhs)"
    using lhs by (simp add: remainder_form_def val_nonneg)
  then have "0 \<le> GuessDigit_loop lhs rhs 0 internal_base
     \<and> GuessDigit_loop lhs rhs 0 internal_base < internal_base
     \<and> GuessDigit_loop lhs rhs 0 internal_base * val (digits rhs) \<le> val (digits lhs)
     \<and> val (digits lhs) < (GuessDigit_loop lhs rhs 0 internal_base + 1) * val (digits rhs)"
    using bound base_pos by (intro GuessDigit_loop_spec [OF rhs lhs]) simp_all
  then show "0 \<le> GuessDigit lhs rhs" and "GuessDigit lhs rhs < internal_base"
    and "GuessDigit lhs rhs * val (digits rhs) \<le> val (digits lhs)"
    and "val (digits lhs) < (GuessDigit lhs rhs + 1) * val (digits rhs)"
    by (simp_all add: GuessDigit_def)
qed

lemma quotient_digit_unique:
  assumes "0 < (b :: int)" "q * b \<le> r" "r < (q + 1) * b" "q' * b \<le> r" "r < (q' + 1) * b"
  shows "q' = q"
proof -
  have "q * b < (q' + 1) * b" "q' * b < (q + 1) * b"
    using assms by linarith+
  then have "q < q' + 1" "q' < q + 1"
    using assms(1) by (simp_all add: mult_less_cancel_right)
  then show ?thesis by simp
qed

subsection \<open>Division\<close>

lemma remainder_form_insert:
  assumes "canonical td" "\<not> is_negative td" "0 \<le> d" "d < internal_base"
  shows "remainder_form (InsertLeastSignificantDigit td d)"
  using assms
  by (cases "digits td = []")
    (auto simp: remainder_form_def InsertLeastSignificantDigit_def canonical_def canon_def)

lemma op_div_step:
  assumes rhs: "canonical rhs" "Sign rhs = 1"
    and td: "canonical td" "\<not> is_negative td" "val (digits td) < val (digits rhs)"
    and d: "0 \<le> d" "d < internal_base"
  defines "td1 \<equiv> InsertLeastSignificantDigit td d"
  defines "q \<equiv> GuessDigit td1 rhs"
  shows "0 \<le> q" and "q < internal_base"
    and "q * val (digits rhs) \<le> val (digits td1)"
    and "val (digits td1) < (q + 1) * val (digits rhs)"
    and "\<exists>td2. op_sub td1 (MultiplyByShort rhs q) = Ok td2 \<and> canonical td2 \<and> \<not> is_negative td2
          \<and> val (digits td2) = val (digits td1) - q * val (digits rhs)"
proof -
  have rf: "remainder_form td1"
    unfolding td1_def using td(1,2) d by (rule remainder_form_insert)
  have v1: "val (digits td1) = d + internal_base * val (digits td)"
    by (simp add: td1_def InsertLeastSignificantDigit_def)
  have "internal_base * (val (digits td) + 1) \<le> internal_base * val (digits rhs)"
    using td(3) base_pos by (intro mult_left_mono) simp_all
  then have bound: "val (digits td1) < internal_base * val (digits rhs)"
    using v1 d by (simp add: algebra_simps)
  note g = GuessDigit_spec [OF rhs rf bound, folded q_def]
  show "0 \<le> q" "q < internal_base" "q * val (digits rhs) \<le> val (digits td1)"
    "val (digits td1) < (q + 1) * val (digits rhs)"
    by (rule g)+
  let ?p = "MultiplyByShort rhs q"
  have lr: "limbs (digits rhs)" using rhs by (simp add: canonical_def)
  have p: "canonical ?p" "val (digits ?p) = val (digits rhs) * q" "\<not> is_negative ?p"
    using MultiplyByShort_spec [OF lr, of q] g(1,2) rhs by simp_all
  have l1: "limbs (digits td1)" and s1: "Sign td1 = 1"
    using rf by (simp_all add: remainder_form_def Sign_nonempty)
  have le: "val (digits ?p) \<le> val (digits td1)"
    using p(2) g(3) by (simp add: mult.commute)
  have cmp: "CompareAbsoluteValues td1 (op_neg ?p) \<noteq> - 1"
    using l1 p(1) le
    by (simp only: CompareAbsoluteValues_op_neg) (intro CompareAbsoluteValues_ge, simp_all add: canonical_def)
  have sp: "Sign (op_neg ?p) * val (digits (op_neg ?p)) = - val (digits ?p)"
    using int_of_nonneg [OF Sign_flag_False [OF p(3)]] by (simp add: int_of_def)
  have nn: "0 \<le> val (digits td1) + Sign (op_neg ?p) * val (digits (op_neg ?p))"
    using le by (simp only: sp)
  have "\<exists>c. op_add td1 (op_neg ?p) = Ok c \<and> canonical c \<and> \<not> is_negative c
      \<and> val (digits c) = val (digits td1) + Sign (op_neg ?p) * val (digits (op_neg ?p))"
    using l1 p(1) cmp s1 nn
    by (intro op_add_core) (simp_all add: canonical_def)
  moreover have "op_sub td1 ?p = op_add td1 (op_neg ?p)"
    using s1 by (simp add: op_sub_def op_lt_i64_0)
  ultimately show "\<exists>td2. op_sub td1 ?p = Ok td2 \<and> canonical td2 \<and> \<not> is_negative td2
          \<and> val (digits td2) = val (digits td1) - q * val (digits rhs)"
    using sp p(2) by (auto simp: mult.commute)
qed

lemma op_div_loop_spec:
  assumes rhs: "canonical rhs" "Sign rhs = 1" and lim: "limbs (digits lhs)"
  shows "k \<le> length (digits lhs) \<Longrightarrow> limbs (digits rr) \<Longrightarrow> canonical td \<Longrightarrow>
    \<not> is_negative td \<Longrightarrow> val (digits td) < val (digits rhs) \<Longrightarrow>
    \<exists>rr' t. op_div_loop lhs rhs k rr td = Ok rr' \<and> is_negative rr' = is_negative rr
      \<and> limbs (digits rr') \<and> 0 \<le> t \<and> t < val (digits rhs)
      \<and> val (rev (digits rr')) * val (digits rhs) + t
          = (val (rev (digits rr)) * val (digits rhs) + val (digits td)) * internal_base ^ k
            + val (take k (digits lhs))"
proof (induction k arbitrary: rr td)
  case 0
  then show ?case
    by (intro exI [of _ rr] exI [of _ "val (digits td)"]) (simp add: val_nonneg canonical_def)
next
  case (Suc k)
  let ?d = "digits lhs ! k"
  define td1 where "td1 = InsertLeastSignificantDigit td ?d"
  define q where "q = GuessDigit td1 rhs"
  define rr1 where "rr1 = PushDigitToEnd rr q"
  have d: "0 \<le> ?d" "?d < internal_base"
    using limbs_nth [OF lim, of k] Suc.prems(1) by simp_all
  note st = op_div_step [OF rhs Suc.prems(3,4,5) d, folded td1_def, folded q_def]
  from st(5) obtain td2 where td2: "op_sub td1 (MultiplyByShort rhs q) = Ok td2" "canonical td2"
      "\<not> is_negative td2" "val (digits td2) = val (digits td1) - q * val (digits rhs)"
    by blast
  have v1: "val (digits td1) = ?d + internal_base * val (digits td)"
    by (simp add: td1_def InsertLeastSignificantDigit_def)
  have t2: "0 \<le> val (digits td2)" "val (digits td2) < val (digits rhs)"
    using td2(4) st(3,4) by (simp_all add: algebra_simps)
  have r1: "limbs (digits rr1)" "val (rev (digits rr1)) = q + internal_base * val (rev (digits rr))"
    "is_negative rr1 = is_negative rr"
    using Suc.prems(2) st(1,2) by (simp_all add: rr1_def PushDigitToEnd_def)
  have "\<exists>rr' t. op_div_loop lhs rhs k rr1 td2 = Ok rr' \<and> is_negative rr' = is_negative rr1
      \<and> limbs (digits rr') \<and> 0 \<le> t \<and> t < val (digits rhs)
      \<and> val (rev (digits rr')) * val (digits rhs) + t
          = (val (rev (digits rr1)) * val (digits rhs) + val (digits td2)) * internal_base ^ k
            + val (take k (digits lhs))"
    using Suc.prems(1) r1(1) td2(2,3) t2(2) by (intro Suc.IH) simp_all
  then obtain rr' t where res: "op_div_loop lhs rhs k rr1 td2 = Ok rr'"
      "is_negative rr' = is_negative rr1" "limbs (digits rr')" "0 \<le> t" "t < val (digits rhs)"
      "val (rev (digits rr')) * val (digits rhs) + t
          = (val (rev (digits rr1)) * val (digits rhs) + val (digits td2)) * internal_base ^ k
            + val (take k (digits lhs))"
    by blast
  have "op_div_loop lhs rhs (Suc k) rr td = Ok rr'"
    using td2(1) res(1)
    by (simp add: Let_def DigitAt_def td1_def [symmetric] q_def [symmetric] rr1_def [symmetric])
  moreover have "take (Suc k) (digits lhs) = take k (digits lhs) @ [?d]"
    using Suc.prems(1) by (simp add: take_Suc_conv_app_nth)
  then have "val (take (Suc k) (digits lhs)) = val (take k (digits lhs)) + internal_base ^ k * ?d"
    using Suc.prems(1) by (simp add: val_append)
  then have "val (rev (digits rr')) * val (digits rhs) + t
          = (val (rev (digits rr)) * val (digits rhs) + val (digits td)) * internal_base ^ Suc k
            + val (take (Suc k) (digits lhs))"
    using res(6) r1(2) td2(4) v1 by (simp add: algebra_simps)
  ultimately show ?case
    using res(2,3,4,5) r1(3) by blast
qed

lemma op_div_core:
  assumes rhs: "canonical rhs" "Sign rhs = 1" and lim: "limbs (digits lhs)" and sl: "Sign lhs \<noteq> - 1"
  shows "\<exists>c. op_div lhs rhs = Ok c \<and> canonical c \<and> \<not> is_negative c
      \<and> val (digits c) = val (digits lhs) div val (digits rhs)"
proof -
  have ne: "digits rhs \<noteq> []" using rhs(2) by (auto simp: Sign_def NumberOfDigits_def)
  then have pos: "0 < val (digits rhs)"
    using rhs(1) by (simp add: canonical_def val_pos_canon)
  have "\<exists>rr' t. op_div_loop lhs rhs (length (digits lhs)) (from_int64 0) (from_int64 0) = Ok rr'
      \<and> is_negative rr' = is_negative (from_int64 0)
      \<and> limbs (digits rr') \<and> 0 \<le> t \<and> t < val (digits rhs)
      \<and> val (rev (digits rr')) * val (digits rhs) + t
          = (val (rev (digits (from_int64 0))) * val (digits rhs) + val (digits (from_int64 0)))
              * internal_base ^ length (digits lhs)
            + val (take (length (digits lhs)) (digits lhs))"
    using pos by (intro op_div_loop_spec [OF rhs lim]) simp_all
  then obtain rr' t where res:
      "op_div_loop lhs rhs (length (digits lhs)) (from_int64 0) (from_int64 0) = Ok rr'"
      "\<not> is_negative rr'" "limbs (digits rr')" "0 \<le> t" "t < val (digits rhs)"
      "val (rev (digits rr')) * val (digits rhs) + t = val (digits lhs)"
    by (auto simp: from_int64_0)
  let ?c = "ReverseDigitsAndNormalize rr'"
  have "val (digits lhs) = val (digits rhs) * val (rev (digits rr')) + t"
    using res(6) by (simp add: mult.commute)
  then have "val (digits lhs) div val (digits rhs) = val (rev (digits rr'))"
    using res(4,5) by (rule int_div_pos_eq)
  then have "val (digits ?c) = val (digits lhs) div val (digits rhs)"
    by (simp add: ReverseDigitsAndNormalize_def)
  moreover have "canonical ?c"
    using res(3) by (simp add: ReverseDigitsAndNormalize_def RemoveZeroes_canonical)
  moreover have "\<not> is_negative ?c"
    using res(2) by (simp add: ReverseDigitsAndNormalize_def)
  moreover have "op_div lhs rhs = Ok ?c"
    using ne sl rhs(2) res(1)
    by (subst op_div.simps) (simp add: op_eq_i64_0 op_lt_i64_0 NumberOfDigits_def)
  ultimately show ?thesis by blast
qed

lemma op_div_lhs_nonneg:
  assumes rhs: "canonical rhs" "digits rhs \<noteq> []" and lim: "limbs (digits lhs)" and sl: "Sign lhs \<noteq> - 1"
  shows "\<exists>c. op_div lhs rhs = Ok c \<and> canonical c \<and> is_negative c = (Sign rhs = - 1)
      \<and> val (digits c) = val (digits lhs) div val (digits rhs)"
proof (cases "Sign rhs = - 1")
  case False
  with rhs(2) have "Sign rhs = 1" by (simp add: Sign_nonempty split: if_splits)
  from op_div_core [OF rhs(1) this lim sl] False show ?thesis by auto
next
  case True
  then have "Sign (op_neg rhs) = 1" by simp
  from op_div_core [OF _ this lim sl] rhs(1)
  obtain c where c: "op_div lhs (op_neg rhs) = Ok c" "canonical c" "\<not> is_negative c"
      "val (digits c) = val (digits lhs) div val (digits rhs)"
    by auto
  have "op_div lhs rhs = Ok (op_neg c)"
    using rhs(2) sl True c(1) by (subst op_div.simps) (simp add: op_eq_i64_0 op_lt_i64_0)
  with c True show ?thesis by simp
qed

lemma op_div_spec:
  assumes rhs: "canonical rhs" "digits rhs \<noteq> []" and lim: "limbs (digits lhs)"
  shows "\<exists>c. op_div lhs rhs = Ok c \<and> canonical c
      \<and> is_negative c = ((Sign lhs = - 1) \<noteq> (Sign rhs = - 1))
      \<and> val (digits c) = val (digits lhs) div val (digits rhs)"
proof (cases "Sign lhs = - 1")
  case False
  from op_div_lhs_nonneg [OF rhs lim False] False show ?thesis by auto
next
  case True
  then have "Sign (op_neg lhs) \<noteq> - 1" by simp
  from op_div_lhs_nonneg [OF rhs _ this] lim
  obtain c where c: "op_div (op_neg lhs) rhs = Ok c" "canonical c"
      "is_negative c = (Sign rhs = - 1)"
      "val (digits c) = val (digits lhs) div val (digits rhs)"
    by auto
  have "op_div lhs rhs = Ok (op_neg c)"
    using rhs(2) True c(1) by (subst op_div.simps) (simp add: op_eq_i64_0 op_lt_i64_0)
  with c True show ?thesis by auto
qed

lemma op_div_int_of:
  assumes "canonical lhs" "canonical rhs" "digits rhs \<noteq> []"
  shows "\<exists>c. op_div lhs rhs = Ok c \<and> canonical c
      \<and> is_negative c = ((Sign lhs = - 1) \<noteq> (Sign rhs = - 1))
      \<and> val (digits c) = val (digits lhs) div val (digits rhs)
      \<and> int_of c = int_of lhs sdiv int_of rhs"
proof -
  from op_div_spec [OF assms(2,3)] assms(1)
  obtain c where c: "op_div lhs rhs = Ok c" "canonical c"
      "is_negative c = ((Sign lhs = - 1) \<noteq> (Sign rhs = - 1))"
      "val (digits c) = val (digits lhs) div val (digits rhs)"
    by (auto simp: canonical_def)
  have "int_of lhs sdiv int_of rhs = sgn (int_of lhs) * sgn (int_of rhs) * (\<bar>int_of lhs\<bar> div \<bar>int_of rhs\<bar>)"
    by (simp add: signed_divide_int_def)
  also have "\<dots> = Sign lhs * Sign rhs * val (digits c)"
    using assms c(4) by (simp add: canonical_Sign canonical_abs)
  also have "\<dots> = int_of c"
  proof (cases "Sign lhs = 0")
    case True
    then have "digits lhs = []" by (auto simp: Sign_def NumberOfDigits_def split: if_splits)
    with c(4) True show ?thesis by (simp add: int_of_alt)
  next
    case False
    moreover have "Sign rhs \<noteq> 0" using assms(3) by (simp add: Sign_nonempty)
    ultimately show ?thesis
      using Sign_cases [of lhs] Sign_cases [of rhs] c(3) by (auto simp: int_of_alt)
  qed
  finally show ?thesis using c by auto
qed

subsection \<open>Conversion to the native integer\<close>

lemma s64_mod: "s64 x mod 2 ^ 64 = x mod 2 ^ 64"
proof -
  have "s64 x mod 2 ^ 64 = ((x + 2 ^ 63) mod 2 ^ 64 - 2 ^ 63) mod 2 ^ 64"
    by (simp add: s64_def)
  also have "\<dots> = (x + 2 ^ 63 - 2 ^ 63) mod 2 ^ 64"
    by (rule mod_diff_left_eq)
  finally show ?thesis by simp
qed

lemma s64_cong: "x mod 2 ^ 64 = y mod 2 ^ 64 \<Longrightarrow> s64 x = s64 y"
proof -
  assume "x mod 2 ^ 64 = y mod 2 ^ 64"
  then have "(x + 2 ^ 63) mod 2 ^ 64 = (y + 2 ^ 63) mod 2 ^ 64"
    by (rule mod_add_cong) simp
  then show ?thesis by (simp add: s64_def)
qed

lemma s64_add_left: "s64 (s64 x + y) = s64 (x + y)"
  by (rule s64_cong) (metis mod_add_left_eq s64_mod)

lemma s64_add_right: "s64 (x + s64 y) = s64 (x + y)"
  by (rule s64_cong) (metis mod_add_right_eq s64_mod)

lemma s64_mult_left: "s64 (s64 x * y) = s64 (x * y)"
  by (rule s64_cong) (metis mod_mult_left_eq s64_mod)

lemma to_int64_loop_step:
  "to_int64_loop (d # ds) r pwr
     = to_int64_loop ds (s64 (r + d * pwr))
         (if pwr * internal_base \<le> INT64_MAX then s64 (pwr * internal_base) else pwr)"
proof -
  from op_mul_canonical [of "from_int64 pwr" "from_int64 internal_base"]
  obtain p where p: "op_mul (from_int64 pwr) (from_int64 internal_base) = Ok p" "canonical p"
      "int_of p = pwr * internal_base"
    by auto
  have "op_le_i64 p INT64_MAX \<longleftrightarrow> pwr * internal_base \<le> INT64_MAX"
    using p(2,3) by (simp add: op_le_i64_def op_le_canonical)
  then show ?thesis
    using p(1) by (simp add: Let_def s64_add_right)
qed

lemma s64_idem: "s64 (s64 x) = s64 x"
  by (rule s64_cong) (rule s64_mod)

lemma to_int64_loop_high:
  assumes "s64 r = r" "length ds \<le> 1"
  shows "to_int64_loop ds r (internal_base * internal_base)
     = Ok (s64 (r + val ds * (internal_base * internal_base)))"
proof (cases ds)
  case Nil
  with assms show ?thesis by simp
next
  case (Cons d ds')
  with assms have "ds' = []" by simp
  with Cons show ?thesis
    by (simp only: to_int64_loop_step) simp
qed

lemma to_int64_loop_mid:
  assumes "s64 r = r" "length ds \<le> 2"
  shows "to_int64_loop ds r internal_base = Ok (s64 (r + val ds * internal_base))"
proof (cases ds)
  case Nil
  with assms show ?thesis by simp
next
  case (Cons d ds')
  have pw: "(if internal_base * internal_base \<le> INT64_MAX then s64 (internal_base * internal_base)
             else internal_base) = internal_base * internal_base"
    by (simp add: internal_base_def INT64_MAX_def s64_def)
  have "to_int64_loop ds r internal_base
      = to_int64_loop ds' (s64 (r + d * internal_base)) (internal_base * internal_base)"
    by (simp only: Cons to_int64_loop_step pw)
  also have "\<dots> = Ok (s64 (s64 (r + d * internal_base) + val ds' * (internal_base * internal_base)))"
    using assms Cons by (intro to_int64_loop_high) (simp_all add: s64_idem)
  also have "s64 (s64 (r + d * internal_base) + val ds' * (internal_base * internal_base))
      = s64 ((r + d * internal_base) + val ds' * (internal_base * internal_base))"
    by (rule s64_add_left)
  also have "(r + d * internal_base) + val ds' * (internal_base * internal_base)
      = r + val ds * internal_base"
    by (simp add: Cons algebra_simps)
  finally show ?thesis .
qed

lemma to_int64_loop_low:
  assumes "length ds \<le> 3"
  shows "to_int64_loop ds 0 1 = Ok (s64 (val ds))"
proof (cases ds)
  case Nil
  then show ?thesis by (simp add: s64_def)
next
  case (Cons d ds')
  have pw: "(if 1 * internal_base \<le> INT64_MAX then s64 (1 * internal_base) else 1) = internal_base"
    by (simp add: internal_base_def INT64_MAX_def s64_def)
  have "to_int64_loop ds 0 1 = to_int64_loop ds' (s64 (0 + d * 1)) internal_base"
    by (simp only: Cons to_int64_loop_step pw)
  also have "\<dots> = Ok (s64 (s64 (0 + d * 1) + val ds' * internal_base))"
    using assms Cons by (intro to_int64_loop_mid) (simp_all add: s64_idem)
  also have "s64 (s64 (0 + d * 1) + val ds' * internal_base)
      = s64 ((0 + d * 1) + val ds' * internal_base)"
    by (rule s64_add_left)
  also have "(0 + d * 1) + val ds' * internal_base = val ds"
    by (simp add: Cons algebra_simps)
  finally show ?thesis .
qed

lemma canonical_length_le_3:
  assumes "canonical a" "val (digits a) \<le> 2 ^ 63"
  shows "length (digits a) \<le> 3"
proof (rule ccontr)
  assume "\<not> length (digits a) \<le> 3"
  then have len: "4 \<le> length (digits a)" by simp
  then have ne: "digits a \<noteq> []" by auto
  with assms(1) have "internal_base ^ (length (digits a) - 1) \<le> val (digits a)"
    by (intro val_ge) (simp_all add: canonical_def canon_def)
  moreover have "internal_base ^ 3 \<le> internal_base ^ (length (digits a) - 1)"
    using len base_gt_1 by (intro power_increasing) simp_all
  moreover have "(2 :: int) ^ 63 < internal_base ^ 3"
    by (simp add: internal_base_def)
  ultimately show False using assms(2) by linarith
qed

lemma to_int64_spec:
  assumes "canonical a"
  shows "int_of a < INT64_MIN \<or> INT64_MAX < int_of a \<Longrightarrow> to_int64 a = Throw Int64Overflow"
    and "INT64_MIN \<le> int_of a \<Longrightarrow> int_of a \<le> INT64_MAX \<Longrightarrow> to_int64 a = Ok (int_of a)"
proof -
  have gt: "op_gt_i64 a INT64_MAX \<longleftrightarrow> INT64_MAX < int_of a"
    and lt: "op_lt_i64 a INT64_MIN \<longleftrightarrow> int_of a < INT64_MIN"
    using assms by (simp_all add: op_gt_i64_def op_lt_i64_def op_gt_canonical op_lt_canonical)
  show "to_int64 a = Throw Int64Overflow" if "int_of a < INT64_MIN \<or> INT64_MAX < int_of a"
    using that gt lt by (auto simp: to_int64_def)
  show "to_int64 a = Ok (int_of a)" if r: "INT64_MIN \<le> int_of a" "int_of a \<le> INT64_MAX"
  proof -
    have "val (digits a) = \<bar>int_of a\<bar>" using assms by (simp add: canonical_abs)
    with r have "val (digits a) \<le> 2 ^ 63"
      by (simp add: INT64_MIN_def INT64_MAX_def)
    then have "length (digits a) \<le> 3"
      using assms by (intro canonical_length_le_3)
    then have "to_int64_loop (digits a) 0 1 = Ok (s64 (val (digits a)))"
      by (rule to_int64_loop_low)
    then have "to_int64 a = Ok (s64 (s64 (val (digits a)) * Sign a))"
      using r gt lt by (simp add: to_int64_def)
    also have "s64 (s64 (val (digits a)) * Sign a) = s64 (val (digits a) * Sign a)"
      by (rule s64_mult_left)
    also have "val (digits a) * Sign a = int_of a"
      by (simp add: int_of_def mult.commute)
    also have "s64 (int_of a) = int_of a"
      using r by (intro s64_id) (simp_all add: INT64_MIN_def INT64_MAX_def)
    finally show ?thesis .
  qed
qed

subsection \<open>Remainder by a native modulus\<close>

lemma op_rem_spec:
  assumes "canonical a" "0 < m" "m < 2 ^ 32"
  shows "op_rem a m = Ok (nat (int_of a mod int m))"
proof -
  let ?m = "from_int64 (int m)"
  have mne: "digits ?m \<noteq> []" using assms(2) by simp
  from op_div_int_of [OF assms(1) from_int64_canonical mne]
  obtain q where q: "op_div a ?m = Ok q" "canonical q" "int_of q = int_of a sdiv int m"
    by auto
  from op_mul_canonical [OF q(2) from_int64_canonical, of "int m"]
  obtain p where p: "op_mul q ?m = Ok p" "canonical p" "int_of p = int_of q * int m"
    by auto
  from op_sub_canonical [OF assms(1) p(2)]
  obtain d where d: "op_sub a p = Ok d" "canonical d" "int_of d = int_of a - int_of p"
    by auto
  have dv: "int_of d = int_of a smod int m"
    using d(3) p(3) q(3) by (simp add: minus_sdiv_mult_eq_smod)
  have bd: "\<bar>int_of d\<bar> < int m"
    using assms(2) by (simp add: dv abs_smod_less)
  have m32: "int m < 2 ^ 32" using assms(3) by simp
  have "to_int64 d = Ok (int_of d)"
    using bd m32 d(2) by (intro to_int64_spec(2)) (simp_all add: INT64_MIN_def INT64_MAX_def)
  moreover have "s64 (int_of d + int m) = int_of d + int m"
    using bd m32 by (intro s64_id) simp_all
  moreover have "(int_of d + int m) smod int m = (int_of d + int m) mod int m"
    using bd assms(2) by (intro smod_nonneg) simp_all
  moreover have "(int_of d + int m) mod int m = int_of a mod int m"
    using assms(2) by (simp add: dv smod_mod_eq)
  moreover have "0 \<le> int_of a mod int m" "int_of a mod int m < int m"
    using assms(2) by simp_all
  then have "(int_of a mod int m) mod 2 ^ 32 = int_of a mod int m"
    using m32 by (intro mod_pos_pos_trivial) linarith+
  ultimately show ?thesis
    using q(1) p(1) d(1) by (simp add: op_rem_def)
qed

subsection \<open>Parsing\<close>

lemma CharToDigit_dash [simp]: "CharToDigit CHR ''-'' = - 1"
  by (simp add: CharToDigit_def)

lemma valid_digit_not_dash: "valid_digit base ch \<Longrightarrow> ch \<noteq> CHR ''-''"
  by (auto simp: valid_digit_def)

lemma CharToDigit_range: "- 1 \<le> CharToDigit ch \<and> CharToDigit ch \<le> 35"
proof -
  have "(of_char ch :: int) < 256"
    by (metis of_char_mod_256 pos_mod_bound zero_less_numeral)
  then show ?thesis by (auto simp: CharToDigit_def)
qed

lemma check_throws_iff:
  "(CharToDigit ch \<ge> base \<or> CharToDigit ch = - 1) \<longleftrightarrow> \<not> valid_digit base ch"
  using CharToDigit_range [of ch] by (auto simp: valid_digit_def)

lemma FromString_check_ok:
  "(\<forall>k<length cs. (i + k = 0 \<and> cs ! k = CHR ''-'') \<or> valid_digit base (cs ! k)) \<Longrightarrow>
   FromString_check cs base i = Ok ()"
proof (induction cs arbitrary: i)
  case Nil
  then show ?case by simp
next
  case (Cons c cs)
  have rest: "\<forall>k<length cs. (i + 1 + k = 0 \<and> cs ! k = CHR ''-'') \<or> valid_digit base (cs ! k)"
    using Cons.prems by fastforce
  have head: "(i = 0 \<and> c = CHR ''-'') \<or> valid_digit base c"
    using Cons.prems by fastforce
  show ?case
    using head Cons.IH [OF rest] by (auto simp: Let_def check_throws_iff)
qed

lemma FromString_check_bad:
  "k < length cs \<Longrightarrow>
   (\<forall>j<k. (i + j = 0 \<and> cs ! j = CHR ''-'') \<or> valid_digit base (cs ! j)) \<Longrightarrow>
   \<not> ((i + k = 0 \<and> cs ! k = CHR ''-'') \<or> valid_digit base (cs ! k)) \<Longrightarrow>
   FromString_check cs base i = Throw (InvalidSymbol (i + k))"
proof (induction cs arbitrary: i k)
  case Nil
  then show ?case by simp
next
  case (Cons c cs)
  show ?case
  proof (cases k)
    case 0
    with Cons.prems show ?thesis
      by (auto simp: Let_def check_throws_iff)
  next
    case (Suc k')
    have head: "(i = 0 \<and> c = CHR ''-'') \<or> valid_digit base c"
      using Cons.prems(2) Suc by fastforce
    have "FromString_check cs base (i + 1) = Throw (InvalidSymbol (i + 1 + k'))"
    proof (rule Cons.IH)
      show "k' < length cs" using Cons.prems(1) Suc by simp
      show "\<forall>j<k'. (i + 1 + j = 0 \<and> cs ! j = CHR ''-'') \<or> valid_digit base (cs ! j)"
        using Cons.prems(2) Suc by fastforce
      show "\<not> ((i + 1 + k' = 0 \<and> cs ! k' = CHR ''-'') \<or> valid_digit base (cs ! k'))"
        using Cons.prems(3) Suc by simp
    qed
    with head Suc show ?thesis
      by (auto simp: Let_def check_throws_iff)
  qed
qed

lemma MultiplyByShort_nonneg:
  assumes "canonical bp" "Sign bp \<noteq> - 1" "0 \<le> r" "r \<le> internal_base"
  shows "canonical (MultiplyByShort bp r)" and "Sign (MultiplyByShort bp r) \<noteq> - 1"
    and "int_of (MultiplyByShort bp r) = val (digits bp) * r"
    and "val (digits (MultiplyByShort bp r)) = val (digits bp) * r"
    and "\<not> is_negative (MultiplyByShort bp r)"
proof -
  have lim: "limbs (digits bp)" using assms(1) by (simp add: canonical_def)
  note m = MultiplyByShort_spec [OF lim assms(3,4)]
  show "canonical (MultiplyByShort bp r)" by (rule m(1))
  show f: "\<not> is_negative (MultiplyByShort bp r)" using m(3) assms(2) by simp
  then show s: "Sign (MultiplyByShort bp r) \<noteq> - 1" by (rule Sign_flag_False)
  show "val (digits (MultiplyByShort bp r)) = val (digits bp) * r" by (rule m(2))
  then show "int_of (MultiplyByShort bp r) = val (digits bp) * r"
    using int_of_nonneg [OF s] by simp
qed

lemma FromString_loop_spec:
  assumes base: "2 \<le> base" "base \<le> 36"
  shows "\<forall>c\<in>set cs. c = CHR ''-'' \<or> valid_digit base c \<Longrightarrow>
    canonical result \<Longrightarrow> Sign result \<noteq> - 1 \<Longrightarrow> canonical bp \<Longrightarrow> Sign bp \<noteq> - 1 \<Longrightarrow>
    \<exists>r. FromString_loop cs base result bp = Ok r \<and> canonical r \<and> Sign r \<noteq> - 1
       \<and> int_of r = int_of result + val (digits bp) * str_val base cs"
proof (induction cs arbitrary: result bp)
  case Nil
  then show ?case by simp
next
  case (Cons c cs)
  have rest: "\<forall>c\<in>set cs. c = CHR ''-'' \<or> valid_digit base c"
    using Cons.prems(1) by simp
  show ?case
  proof (cases "c = CHR ''-''")
    case True
    from Cons.IH [OF rest Cons.prems(2-5)] True show ?thesis by simp
  next
    case False
    with Cons.prems(1) have vd: "0 \<le> CharToDigit c" "CharToDigit c < base"
      by (simp_all add: valid_digit_def)
    then have dB: "CharToDigit c \<le> internal_base" and bB: "0 \<le> base" "base \<le> internal_base"
      using base by (simp_all add: internal_base_def)
    let ?m = "MultiplyByShort bp (CharToDigit c)"
    let ?bp' = "MultiplyByShort bp base"
    note m = MultiplyByShort_nonneg [OF Cons.prems(4,5) vd(1) dB]
    note b' = MultiplyByShort_nonneg [OF Cons.prems(4,5) bB]
    have "\<exists>r1. op_add result ?m = Ok r1 \<and> canonical r1 \<and> int_of r1 = int_of result + int_of ?m"
      using Cons.prems(2,3) m(1,2) by (intro op_add_spec) (simp_all add: canonical_def)
    then obtain r1 where r1: "op_add result ?m = Ok r1" "canonical r1"
        "int_of r1 = int_of result + val (digits bp) * CharToDigit c"
      using m(3) by auto
    have "0 \<le> int_of result"
      using Cons.prems(2,3) by (simp add: int_of_nonneg val_nonneg canonical_def)
    moreover have "0 \<le> val (digits bp)"
      using Cons.prems(4) by (simp add: val_nonneg canonical_def)
    ultimately have "0 \<le> int_of r1" using r1(3) vd(1) by simp
    then have s1: "Sign r1 \<noteq> - 1" using r1(2) by (intro canonical_Sign_nonneg)
    from Cons.IH [OF rest r1(2) s1 b'(1,2)]
    obtain r where r: "FromString_loop cs base r1 ?bp' = Ok r" "canonical r" "Sign r \<noteq> - 1"
        "int_of r = int_of r1 + val (digits ?bp') * str_val base cs"
      by blast
    have "FromString_loop (c # cs) base result bp = Ok r"
      using False r1(1) r(1) by simp
    moreover have "int_of r = int_of result + val (digits bp) * str_val base (c # cs)"
      using r(4) r1(3) b'(4) False by (simp add: algebra_simps)
    ultimately show ?thesis using r(2,3) by blast
  qed
qed

lemma FromString_spec:
  assumes base: "2 \<le> base" "base \<le> 36"
    and ok: "\<forall>i<length input. (i = 0 \<and> input ! 0 = CHR ''-'') \<or> valid_digit base (input ! i)"
  shows "\<exists>r. FromString input base = Ok r \<and> canonical r
     \<and> int_of r = (if (case input of [] \<Rightarrow> False | ch # _ \<Rightarrow> ch = CHR ''-'')
                   then - str_val base (rev input) else str_val base (rev input))"
proof -
  have chk: "FromString_check input base 0 = Ok ()"
    using ok by (intro FromString_check_ok) auto
  have "\<forall>c\<in>set (rev input). c = CHR ''-'' \<or> valid_digit base c"
    using ok by (auto simp: in_set_conv_nth)
  from FromString_loop_spec [OF base this, of "from_int64 0" "from_int64 1"]
  obtain r where r: "FromString_loop (rev input) base (from_int64 0) (from_int64 1) = Ok r"
      "canonical r" "int_of r = str_val base (rev input)"
    by auto
  show ?thesis
    using base chk r by (simp add: FromString_def ThrowIfBaseIsInvalid_def)
qed

subsection \<open>Rendering\<close>

lemma of_char_DigitToChar:
  assumes "0 \<le> d" "d < 36"
  shows "(of_char (DigitToChar d) :: int) = (if d < 10 then d + 48 else d + 87)"
proof -
  have a: "s64 (d + 48) = d + 48" "s64 (d - 10) = d - 10" "s64 (d - 10 + 97) = d - 10 + 97"
    using assms by (auto intro!: s64_id)
  have "(d + 48) mod 256 = d + 48" "(d - 10 + 97) mod 256 = d - 10 + 97"
    using assms by (auto intro!: mod_pos_pos_trivial)
  then show ?thesis
    using a by (simp add: DigitToChar_def)
qed

lemma CharToDigit_DigitToChar: "0 \<le> d \<Longrightarrow> d < 36 \<Longrightarrow> CharToDigit (DigitToChar d) = d"
  by (simp add: CharToDigit_def of_char_DigitToChar)

lemma valid_digit_DigitToChar: "0 \<le> d \<Longrightarrow> d < base \<Longrightarrow> base \<le> 36 \<Longrightarrow> valid_digit base (DigitToChar d)"
  by (simp add: valid_digit_def CharToDigit_DigitToChar)

lemma lsb_digits_range:
  "2 \<le> base \<Longrightarrow> d \<in> set (lsb_digits base n) \<Longrightarrow> 0 \<le> d \<and> d < base"
proof (induction base n rule: lsb_digits.induct)
  case (1 base n)
  show ?case
  proof (cases "2 \<le> base \<and> 0 < n")
    case True
    with 1 show ?thesis
      by (subst (asm) (2) lsb_digits.simps) auto
  next
    case False
    with 1 show ?thesis
      by (subst (asm) (1) lsb_digits.simps) auto
  qed
qed

lemma str_val_lsb_digits:
  "2 \<le> base \<Longrightarrow> base \<le> 36 \<Longrightarrow> 0 \<le> n \<Longrightarrow> str_val base (map DigitToChar (lsb_digits base n)) = n"
proof (induction base n rule: lsb_digits.induct)
  case (1 base n)
  show ?case
  proof (cases "0 < n")
    case False
    with 1 show ?thesis by (subst lsb_digits.simps) simp
  next
    case True
    have d: "0 \<le> n mod base" "n mod base < base" using 1 by simp_all
    then have v: "valid_digit base (DigitToChar (n mod base))"
      using 1 by (intro valid_digit_DigitToChar)
    have c: "CharToDigit (DigitToChar (n mod base)) = n mod base"
      using d "1.prems" by (intro CharToDigit_DigitToChar) linarith+
    have "0 \<le> n div base" using 1 True by (simp add: pos_imp_zdiv_nonneg_iff)
    with 1 True have "str_val base (map DigitToChar (lsb_digits base (n div base))) = n div base"
      by simp
    with True 1 c valid_digit_not_dash [OF v] show ?thesis
      by (subst lsb_digits.simps) simp
  qed
qed

lemma lsb_digits_nonempty: "2 \<le> base \<Longrightarrow> 0 < n \<Longrightarrow> lsb_digits base n \<noteq> []"
  by (subst lsb_digits.simps) simp

lemma lsb_digits_zero [simp]: "lsb_digits base 0 = []"
  by (subst lsb_digits.simps) simp

lemma str_val_append_dash [simp]: "str_val base (cs @ ''-'') = str_val base cs"
  by (induction cs) simp_all

lemma ToString_loop_spec:
  assumes base: "2 \<le> base" "base \<le> 36"
  shows "canonical temp \<Longrightarrow> \<not> is_negative temp \<Longrightarrow>
    ToString_loop temp base acc = Ok (acc @ map DigitToChar (lsb_digits base (val (digits temp))))"
proof (induction "nat (val (digits temp))" arbitrary: temp acc rule: less_induct)
  case less
  show ?case
  proof (cases "digits temp = []")
    case True
    then show ?thesis
      by (subst ToString_loop.simps) (simp add: op_ne_i64_0)
  next
    case False
    let ?b = "from_int64 base"
    let ?v = "val (digits temp)"
    have lim: "limbs (digits temp)" using less.prems by (simp add: canonical_def)
    have pos: "0 < ?v" using less.prems False by (simp add: canonical_def val_pos_canon)
    have st: "Sign temp \<noteq> - 1" using less.prems(2) by (rule Sign_flag_False)
    have bne: "digits ?b \<noteq> []" using base by simp
    from op_div_spec [OF from_int64_canonical bne lim]
    obtain q where q: "op_div temp ?b = Ok q" "canonical q" "\<not> is_negative q"
        "val (digits q) = ?v div base"
      using st base by (auto simp: sgn_if)
    have sq: "Sign q \<noteq> - 1" using q(3) by (rule Sign_flag_False)
    have bB: "0 \<le> base" "base \<le> internal_base" using base by (simp_all add: internal_base_def)
    note m = MultiplyByShort_nonneg [OF q(2) sq bB]
    from op_sub_canonical [OF less.prems(1) m(1)]
    obtain d where d: "op_sub temp (MultiplyByShort q base) = Ok d" "canonical d"
        "int_of d = int_of temp - int_of (MultiplyByShort q base)"
      by blast
    have dv: "int_of d = ?v mod base"
      using d(3) m(3) q(4) int_of_nonneg [OF st] by (simp add: minus_div_mult_eq_mod)
    have dr: "0 \<le> ?v mod base" "?v mod base < base" using base by simp_all
    have "INT64_MIN \<le> int_of d" "int_of d \<le> INT64_MAX"
      using dv dr base unfolding INT64_MIN_def INT64_MAX_def by linarith+
    then have "to_int64 d = Ok (int_of d)"
      using d(2) by (intro to_int64_spec(2))
    then have ti: "to_int64 d = Ok (?v mod base)"
      using dv by simp
    have "?v div base < ?v" using pos base by (intro int_div_less_self) simp_all
    moreover have "0 \<le> ?v div base" using pos base by (simp add: pos_imp_zdiv_nonneg_iff)
    ultimately have "nat (val (digits q)) < nat ?v" using q(4) by simp
    from less.hyps [OF this q(2,3)]
    have ih: "ToString_loop q base (acc @ [DigitToChar (?v mod base)])
        = Ok ((acc @ [DigitToChar (?v mod base)]) @ map DigitToChar (lsb_digits base (?v div base)))"
      using q(4) by simp
    have "lsb_digits base ?v = (?v mod base) # lsb_digits base (?v div base)"
      using pos base by (subst lsb_digits.simps) simp
    then show ?thesis
      using False q(1) d(1) ti ih
      by (subst ToString_loop.simps) (simp add: op_ne_i64_0)
  qed
qed

lemma ToString_spec:
  assumes "canonical a" "2 \<le> base" "base \<le> 36"
  shows "ToString a base sb
    = Ok (rev ((if digits a = [] then ''0'' else map DigitToChar (lsb_digits base (val (digits a))))
               @ (if sb then GetReversedBasePrefix base else [])
               @ (if Sign a = - 1 then ''-'' else [])))"
proof -
  have "canonical (Abs a)" "\<not> is_negative (Abs a)" "digits (Abs a) = digits a"
    using assms(1) by (simp_all add: Abs_def canonical_def)
  with ToString_loop_spec [OF assms(2,3), of "Abs a"]
  have "ToString_loop (Abs a) base acc = Ok (acc @ map DigitToChar (lsb_digits base (val (digits a))))"
    for acc by simp
  then show ?thesis
    using assms(2,3)
    by (simp add: ToString_def ThrowIfBaseIsInvalid_def op_eq_i64_0 op_lt_i64_0 Let_def)
qed

section \<open>Claims\<close>

text \<open>
  C7.  The comparison operators form a total order: for every pair exactly one of \<open>a < b\<close>,
  \<open>a == b\<close>, \<open>a > b\<close> holds; the sign is the primary key (negative before zero before
  positive), and within equal sign the absolute values decide.  On canonical representations
  the three operators are the order of the values.
\<close>

theorem comparison_total_order:
  "((op_lt a b \<and> \<not> op_eq a b \<and> \<not> op_gt a b)
      \<or> (\<not> op_lt a b \<and> op_eq a b \<and> \<not> op_gt a b)
      \<or> (\<not> op_lt a b \<and> \<not> op_eq a b \<and> op_gt a b))
   \<and> (Sign a < Sign b \<longrightarrow> op_lt a b) \<and> (Sign b < Sign a \<longrightarrow> op_gt a b)
   \<and> (canonical a \<and> canonical b \<longrightarrow>
        (op_lt a b \<longleftrightarrow> int_of a < int_of b) \<and> (op_eq a b \<longleftrightarrow> int_of a = int_of b)
        \<and> (op_gt a b \<longleftrightarrow> int_of b < int_of a)
        \<and> (Sign a = 1 \<and> Sign b = 1 \<longrightarrow> (op_lt a b \<longleftrightarrow> val (digits a) < val (digits b)))
        \<and> (Sign a = - 1 \<and> Sign b = - 1 \<longrightarrow> (op_lt a b \<longleftrightarrow> val (digits b) < val (digits a))))"
proof (intro conjI impI)
  show "(op_lt a b \<and> \<not> op_eq a b \<and> \<not> op_gt a b)
      \<or> (\<not> op_lt a b \<and> op_eq a b \<and> \<not> op_gt a b)
      \<or> (\<not> op_lt a b \<and> \<not> op_eq a b \<and> op_gt a b)"
    using Sign_cases [of a] by (auto simp: op_gt_def op_eq_def op_lt_def)
  show "op_lt a b" if "Sign a < Sign b"
    using that by (simp add: op_lt_def)
  show "op_gt a b" if "Sign b < Sign a"
    using that by (simp add: op_gt_def op_eq_def op_lt_def)
next
  assume c: "canonical a \<and> canonical b"
  then show "op_lt a b \<longleftrightarrow> int_of a < int_of b" "op_eq a b \<longleftrightarrow> int_of a = int_of b"
    "op_gt a b \<longleftrightarrow> int_of b < int_of a"
    by (simp_all add: op_lt_canonical op_eq_canonical op_gt_canonical)
  show "op_lt a b \<longleftrightarrow> val (digits a) < val (digits b)" if "Sign a = 1 \<and> Sign b = 1"
    using c that by (simp add: op_lt_canonical int_of_def)
  show "op_lt a b \<longleftrightarrow> val (digits b) < val (digits a)" if "Sign a = - 1 \<and> Sign b = - 1"
    using c that by (simp add: op_lt_canonical int_of_def)
qed

theorem comparison_total_order_witness:
  "canonical \<lparr>digits = [3], is_negative = True\<rparr> \<and> canonical \<lparr>digits = [5], is_negative = False\<rparr>
   \<and> op_lt \<lparr>digits = [3], is_negative = True\<rparr> \<lparr>digits = [5], is_negative = False\<rparr>
   \<and> \<not> op_eq \<lparr>digits = [3], is_negative = True\<rparr> \<lparr>digits = [5], is_negative = False\<rparr>
   \<and> \<not> op_gt \<lparr>digits = [3], is_negative = True\<rparr> \<lparr>digits = [5], is_negative = False\<rparr>"
  using comparison_total_order [of "\<lparr>digits = [3], is_negative = True\<rparr>"
      "\<lparr>digits = [5], is_negative = False\<rparr>"]
  by (simp add: canonical_def canon_def internal_base_def int_of_def Sign_def NumberOfDigits_def)

text \<open>
  C4.  Division by a divisor that is zero (its sign query is \<open>0\<close>) throws
  \<open>DivisionByZeroError\<close> for every dividend, and so does the remainder by the native
  modulus \<open>0\<close>; nothing else is returned.
\<close>

theorem division_by_zero:
  "(Sign b = 0 \<longrightarrow> op_div a b = Throw DivisionByZeroError)
   \<and> op_div a (from_int64 0) = Throw DivisionByZeroError
   \<and> op_rem a 0 = Throw DivisionByZeroError"
proof (intro conjI impI)
  show "op_div a b = Throw DivisionByZeroError" if "Sign b = 0"
  proof -
    from that have "digits b = []"
      by (auto simp: Sign_def NumberOfDigits_def split: if_splits)
    then show ?thesis by (subst op_div.simps) (simp add: op_eq_i64_0)
  qed
  show z: "op_div a (from_int64 0) = Throw DivisionByZeroError"
    by (subst op_div.simps) (simp add: op_eq_i64_0)
  show "op_rem a 0 = Throw DivisionByZeroError"
    using z by (simp add: op_rem_def)
qed

theorem division_by_zero_witness:
  "Sign \<lparr>digits = [], is_negative = True\<rparr> = 0
   \<and> op_div (from_int64 7) \<lparr>digits = [], is_negative = True\<rparr> = Throw DivisionByZeroError"
  using division_by_zero [of "\<lparr>digits = [], is_negative = True\<rparr>" "from_int64 7"]
  by (simp add: Sign_def NumberOfDigits_def)

text \<open>
  C10.  A representation with no limbs behaves as zero whatever its flag says: its sign query
  is \<open>0\<close>, every comparison operator treats it as it treats \<open>BigInteger(0)\<close> (so it is equal
  to it, not less and not greater), and it renders as \<open>"0"\<close> in every base from 2 to 36
  (with the prefix flag, as \<open>BigInteger(0)\<close> does).
  Negating zero gives such a representation with the flag set, and so does no division of a
  smaller non-negative value by a larger one leave any limb.
\<close>

theorem empty_limbs_are_zero:
  assumes "digits z = []"
  shows "Sign z = 0
    \<and> op_eq z (from_int64 0) \<and> \<not> op_ne z (from_int64 0) \<and> \<not> op_lt z (from_int64 0)
    \<and> \<not> op_gt z (from_int64 0) \<and> op_le z (from_int64 0) \<and> op_ge z (from_int64 0)
    \<and> (\<forall>c. op_eq z c = op_eq (from_int64 0) c \<and> op_eq c z = op_eq c (from_int64 0)
           \<and> op_lt z c = op_lt (from_int64 0) c \<and> op_lt c z = op_lt c (from_int64 0)
           \<and> op_gt z c = op_gt (from_int64 0) c \<and> op_gt c z = op_gt c (from_int64 0))
    \<and> (\<forall>base. 2 \<le> base \<and> base \<le> 36 \<longrightarrow> ToString z base False = Ok ''0'')
    \<and> (\<forall>base prefix. ToString z base prefix = ToString (from_int64 0) base prefix)
    \<and> digits (op_neg (from_int64 0)) = [] \<and> is_negative (op_neg (from_int64 0))
    \<and> (\<forall>a b. canonical a \<and> canonical b \<and> 0 \<le> int_of a \<and> int_of a < int_of b
           \<longrightarrow> (\<exists>q. op_div a b = Ok q \<and> digits q = []))"
proof -
  have s: "Sign z = 0" using assms by simp
  have cmp: "\<And>c. CompareAbsoluteValues z c = CompareAbsoluteValues (from_int64 0) c"
    "\<And>c. CompareAbsoluteValues c z = CompareAbsoluteValues c (from_int64 0)"
    using assms by (auto intro: CompareAbsoluteValues_cong simp: from_int64_0)
  have ops: "op_eq z c = op_eq (from_int64 0) c \<and> op_eq c z = op_eq c (from_int64 0)
           \<and> op_lt z c = op_lt (from_int64 0) c \<and> op_lt c z = op_lt c (from_int64 0)
           \<and> op_gt z c = op_gt (from_int64 0) c \<and> op_gt c z = op_gt c (from_int64 0)" for c
    using s cmp by (simp add: op_eq_def op_lt_def op_gt_def)
  have zero: "op_eq (from_int64 0) (from_int64 0)" "\<not> op_lt (from_int64 0) (from_int64 0)"
    by (simp_all add: op_eq_def op_lt_def from_int64_0 CompareAbsoluteValues_def NumberOfDigits_def)
  have str: "ToString z base False = Ok ''0''" if "2 \<le> base \<and> base \<le> 36" for base
  proof -
    have "ToString_loop (Abs z) base ''0'' = Ok ''0''"
      using assms by (subst ToString_loop.simps) (simp add: op_ne_i64_0 Abs_def)
    then show ?thesis
      using that assms s
      by (simp add: ToString_def ThrowIfBaseIsInvalid_def op_eq_i64_0 op_lt_i64_0)
  qed
  have same: "ToString z base prefix = ToString (from_int64 0) base prefix" for base prefix
  proof -
    have "Abs z = Abs (from_int64 0)"
      using assms by (simp add: Abs_def from_int64_0)
    then show ?thesis
      using assms by (simp add: ToString_def op_eq_i64_0 op_lt_i64_0 from_int64_0)
  qed
  have dv: "\<exists>q. op_div a b = Ok q \<and> digits q = []"
    if "canonical a \<and> canonical b \<and> 0 \<le> int_of a \<and> int_of a < int_of b" for a b
  proof -
    from that have "digits b \<noteq> []"
      by (auto simp: int_of_def)
    with that obtain q where q: "op_div a b = Ok q" "canonical q"
        "int_of q = int_of a sdiv int_of b"
      using op_div_int_of [of a b] by blast
    have "int_of a sdiv int_of b = 0"
      using that by (simp add: sdiv_nonneg)
    with q show ?thesis by (auto simp: canonical_zero_iff)
  qed
  show ?thesis
    using s ops [of "from_int64 0"] zero str dv ops same
    by (simp add: op_ne_def op_gt_def op_le_def op_ge_def from_int64_0 del: from_int64_digits_Nil)
qed

theorem empty_limbs_are_zero_witness:
  "digits \<lparr>digits = [], is_negative = True\<rparr> = []
   \<and> Sign \<lparr>digits = [], is_negative = True\<rparr> = 0
   \<and> op_eq \<lparr>digits = [], is_negative = True\<rparr> (from_int64 0)
   \<and> ToString \<lparr>digits = [], is_negative = True\<rparr> 16 False = Ok ''0''"
proof -
  have h: "digits \<lparr>digits = [], is_negative = True\<rparr> = []" by simp
  note t = empty_limbs_are_zero [OF h]
  from t have "Sign \<lparr>digits = [], is_negative = True\<rparr> = 0"
    and "op_eq \<lparr>digits = [], is_negative = True\<rparr> (from_int64 0)"
    and b: "\<forall>base. 2 \<le> base \<and> base \<le> 36 \<longrightarrow>
          ToString \<lparr>digits = [], is_negative = True\<rparr> base False = Ok ''0''"
    by blast+
  moreover from b have "ToString \<lparr>digits = [], is_negative = True\<rparr> 16 False = Ok ''0''"
    by simp
  ultimately show ?thesis using h by blast
qed

text \<open>
  C1.  For canonical \<open>a\<close> and \<open>b\<close> with \<open>b\<close> not zero, \<open>a / b\<close> returns a canonical quotient
  \<open>q\<close> that truncates toward zero: its flag is the exclusive or of the operands' negative
  signs, and \<open>|q| = |a| div |b|\<close>.  The expression \<open>(a/b)*b + (a - (a/b)*b)\<close> returns a value
  that \<open>operator==\<close> finds equal to \<open>a\<close>.  In the long-division loop on a positive divisor the
  trailing dividend starts and stays canonical, non-negative and below the divisor, and for
  such a trailing dividend and the next limb the digit found by \<open>GuessDigit\<close> is the only
  \<open>q\<close> in \<open>[0, internal_base)\<close> with \<open>q * b \<le> remainder < (q + 1) * b\<close>.
\<close>

theorem division_truncates:
  assumes "canonical a" and "canonical b" and "int_of b \<noteq> 0"
  shows "(\<exists>q p r s. op_div a b = Ok q \<and> op_mul q b = Ok p \<and> op_sub a p = Ok r
        \<and> op_add p r = Ok s \<and> op_eq s a
        \<and> canonical q
        \<and> is_negative q = ((Sign a = - 1) \<noteq> (Sign b = - 1))
        \<and> \<bar>int_of q\<bar> = \<bar>int_of a\<bar> div \<bar>int_of b\<bar>
        \<and> int_of q = int_of a sdiv int_of b)
    \<and> (\<forall>rhs td d. canonical rhs \<and> Sign rhs = 1 \<and> canonical td \<and> \<not> is_negative td
          \<and> val (digits td) < val (digits rhs) \<and> 0 \<le> d \<and> d < internal_base \<longrightarrow>
        (let remainder = InsertLeastSignificantDigit td d;
             digit = GuessDigit remainder rhs
         in 0 \<le> digit \<and> digit < internal_base
            \<and> digit * val (digits rhs) \<le> val (digits remainder)
            \<and> val (digits remainder) < (digit + 1) * val (digits rhs)
            \<and> (\<forall>q'. 0 \<le> q' \<and> q' < internal_base \<and> q' * val (digits rhs) \<le> val (digits remainder)
                    \<and> val (digits remainder) < (q' + 1) * val (digits rhs) \<longrightarrow> q' = digit)
            \<and> (\<exists>td'. op_sub remainder (MultiplyByShort rhs digit) = Ok td' \<and> canonical td'
                    \<and> \<not> is_negative td' \<and> val (digits td') < val (digits rhs))))
    \<and> (\<forall>rhs. canonical rhs \<and> Sign rhs = 1 \<longrightarrow>
          canonical (from_int64 0) \<and> \<not> is_negative (from_int64 0)
          \<and> val (digits (from_int64 0)) < val (digits rhs))"
proof (intro conjI)
  from assms have ne: "digits b \<noteq> []" by (auto simp: int_of_def)
  from op_div_int_of [OF assms(1,2) ne]
  obtain q where q: "op_div a b = Ok q" "canonical q"
      "is_negative q = ((Sign a = - 1) \<noteq> (Sign b = - 1))"
      "val (digits q) = val (digits a) div val (digits b)"
      "int_of q = int_of a sdiv int_of b"
    by blast
  from op_mul_canonical [OF q(2) assms(2)]
  obtain p where p: "op_mul q b = Ok p" "canonical p" "int_of p = int_of q * int_of b"
    by blast
  from op_sub_canonical [OF assms(1) p(2)]
  obtain r where r: "op_sub a p = Ok r" "canonical r" "int_of r = int_of a - int_of p"
    by blast
  from op_add_canonical [OF p(2) r(2)]
  obtain s where s: "op_add p r = Ok s" "canonical s" "int_of s = int_of p + int_of r"
    by blast
  have "op_eq s a"
    using s(2,3) r(3) assms(1) by (simp add: op_eq_canonical)
  moreover have "\<bar>int_of q\<bar> = \<bar>int_of a\<bar> div \<bar>int_of b\<bar>"
    using q(2,4) assms by (simp add: canonical_abs)
  ultimately show "\<exists>q p r s. op_div a b = Ok q \<and> op_mul q b = Ok p \<and> op_sub a p = Ok r
        \<and> op_add p r = Ok s \<and> op_eq s a
        \<and> canonical q
        \<and> is_negative q = ((Sign a = - 1) \<noteq> (Sign b = - 1))
        \<and> \<bar>int_of q\<bar> = \<bar>int_of a\<bar> div \<bar>int_of b\<bar>
        \<and> int_of q = int_of a sdiv int_of b"
    using q p(1) r(1) s(1) by blast
next
  show "\<forall>rhs td d. canonical rhs \<and> Sign rhs = 1 \<and> canonical td \<and> \<not> is_negative td
          \<and> val (digits td) < val (digits rhs) \<and> 0 \<le> d \<and> d < internal_base \<longrightarrow>
        (let remainder = InsertLeastSignificantDigit td d;
             digit = GuessDigit remainder rhs
         in 0 \<le> digit \<and> digit < internal_base
            \<and> digit * val (digits rhs) \<le> val (digits remainder)
            \<and> val (digits remainder) < (digit + 1) * val (digits rhs)
            \<and> (\<forall>q'. 0 \<le> q' \<and> q' < internal_base \<and> q' * val (digits rhs) \<le> val (digits remainder)
                    \<and> val (digits remainder) < (q' + 1) * val (digits rhs) \<longrightarrow> q' = digit)
            \<and> (\<exists>td'. op_sub remainder (MultiplyByShort rhs digit) = Ok td' \<and> canonical td'
                    \<and> \<not> is_negative td' \<and> val (digits td') < val (digits rhs)))"
  proof (intro allI impI)
    fix rhs td :: BigInteger and d :: int
    assume h: "canonical rhs \<and> Sign rhs = 1 \<and> canonical td \<and> \<not> is_negative td
          \<and> val (digits td) < val (digits rhs) \<and> 0 \<le> d \<and> d < internal_base"
    define remainder where "remainder = InsertLeastSignificantDigit td d"
    define digit where "digit = GuessDigit remainder rhs"
    have st: "0 \<le> digit" "digit < internal_base"
      "digit * val (digits rhs) \<le> val (digits remainder)"
      "val (digits remainder) < (digit + 1) * val (digits rhs)"
      "\<exists>td2. op_sub remainder (MultiplyByShort rhs digit) = Ok td2 \<and> canonical td2
          \<and> \<not> is_negative td2
          \<and> val (digits td2) = val (digits remainder) - digit * val (digits rhs)"
      using op_div_step [of rhs td d] h by (simp_all add: remainder_def digit_def)
    have "digits rhs \<noteq> []" using h by (auto simp: Sign_def NumberOfDigits_def)
    then have pos: "0 < val (digits rhs)"
      using h by (simp add: canonical_def val_pos_canon)
    have uniq: "q' = digit" if "0 \<le> q' \<and> q' < internal_base \<and> q' * val (digits rhs) \<le> val (digits remainder)
                    \<and> val (digits remainder) < (q' + 1) * val (digits rhs)" for q'
      using quotient_digit_unique [OF pos st(3,4), of q'] that by simp
    from st(5) obtain td2 where td2: "op_sub remainder (MultiplyByShort rhs digit) = Ok td2"
        "canonical td2" "\<not> is_negative td2"
        "val (digits td2) = val (digits remainder) - digit * val (digits rhs)"
      by blast
    have "val (digits td2) < val (digits rhs)"
      using td2(4) st(4) by (simp add: algebra_simps)
    with td2 have "\<exists>td'. op_sub remainder (MultiplyByShort rhs digit) = Ok td' \<and> canonical td'
                    \<and> \<not> is_negative td' \<and> val (digits td') < val (digits rhs)"
      by blast
    with st(1-4) uniq
    show "let remainder = InsertLeastSignificantDigit td d;
             digit = GuessDigit remainder rhs
         in 0 \<le> digit \<and> digit < internal_base
            \<and> digit * val (digits rhs) \<le> val (digits remainder)
            \<and> val (digits remainder) < (digit + 1) * val (digits rhs)
            \<and> (\<forall>q'. 0 \<le> q' \<and> q' < internal_base \<and> q' * val (digits rhs) \<le> val (digits remainder)
                    \<and> val (digits remainder) < (q' + 1) * val (digits rhs) \<longrightarrow> q' = digit)
            \<and> (\<exists>td'. op_sub remainder (MultiplyByShort rhs digit) = Ok td' \<and> canonical td'
                    \<and> \<not> is_negative td' \<and> val (digits td') < val (digits rhs))"
      unfolding Let_def remainder_def [symmetric] digit_def [symmetric] by blast
  qed
next
  show "\<forall>rhs. canonical rhs \<and> Sign rhs = 1 \<longrightarrow>
          canonical (from_int64 0) \<and> \<not> is_negative (from_int64 0)
          \<and> val (digits (from_int64 0)) < val (digits rhs)"
  proof (intro allI impI)
    fix rhs assume h: "canonical rhs \<and> Sign rhs = 1"
    then have "digits rhs \<noteq> []" by (auto simp: Sign_def NumberOfDigits_def)
    then have "0 < val (digits rhs)"
      using h by (simp add: canonical_def val_pos_canon)
    then show "canonical (from_int64 0) \<and> \<not> is_negative (from_int64 0)
          \<and> val (digits (from_int64 0)) < val (digits rhs)"
      by simp
  qed
qed

theorem division_truncates_witness:
  "canonical \<lparr>digits = [17], is_negative = True\<rparr> \<and> canonical \<lparr>digits = [5], is_negative = False\<rparr>
   \<and> int_of \<lparr>digits = [5], is_negative = False\<rparr> \<noteq> 0
   \<and> (\<exists>q. op_div \<lparr>digits = [17], is_negative = True\<rparr> \<lparr>digits = [5], is_negative = False\<rparr> = Ok q
          \<and> is_negative q \<and> int_of q = - 3)"
proof -
  have h: "canonical \<lparr>digits = [17], is_negative = True\<rparr>"
    "canonical \<lparr>digits = [5], is_negative = False\<rparr>"
    "int_of \<lparr>digits = [5], is_negative = False\<rparr> \<noteq> 0"
    by (simp_all add: canonical_def canon_def internal_base_def int_of_def Sign_def NumberOfDigits_def)
  have "int_of \<lparr>digits = [17], is_negative = True\<rparr> sdiv int_of \<lparr>digits = [5], is_negative = False\<rparr> = - 3"
    by (simp add: int_of_def Sign_def NumberOfDigits_def signed_divide_int_def)
  with division_truncates [OF h] h show ?thesis
    by (auto simp: Sign_def NumberOfDigits_def)
qed

lemma FromString_first_bad:
  assumes "2 \<le> base" "base \<le> 36" "i < length input" "\<not> accepted base input i"
    "\<forall>j<i. accepted base input j"
  shows "FromString input base = Throw (InvalidSymbol i)"
proof -
  have "FromString_check input base 0 = Throw (InvalidSymbol (0 + i))"
    using assms(3,4,5) by (intro FromString_check_bad) (auto simp: accepted_def)
  then show ?thesis
    using assms(1,2) by (simp add: FromString_def ThrowIfBaseIsInvalid_def)
qed

lemma FromString_all_accepted:
  assumes "2 \<le> base" "base \<le> 36" "\<forall>i<length input. accepted base input i"
  shows "\<exists>r. FromString input base = Ok r \<and> canonical r"
  using FromString_spec [OF assms(1,2), of input] assms(3) by (auto simp: accepted_def)

lemma FromString_Ok_canonical:
  assumes "FromString input base = Ok r"
  shows "canonical r"
proof -
  have b: "2 \<le> base \<and> base \<le> 36"
    using assms by (auto simp: FromString_def ThrowIfBaseIsInvalid_def split: if_splits)
  have "\<forall>i<length input. accepted base input i"
  proof (rule ccontr)
    assume "\<not> (\<forall>i<length input. accepted base input i)"
    then have ex: "\<exists>i. i < length input \<and> \<not> accepted base input i" by blast
    define i where "i = (LEAST i. i < length input \<and> \<not> accepted base input i)"
    have i: "i < length input \<and> \<not> accepted base input i"
      unfolding i_def using ex by (rule LeastI_ex)
    have "\<forall>j<i. accepted base input j"
    proof (intro allI impI)
      fix j assume "j < i"
      then have "\<not> (j < length input \<and> \<not> accepted base input j)"
        unfolding i_def by (rule not_less_Least)
      with \<open>j < i\<close> i show "accepted base input j" by simp
    qed
    with b i have "FromString input base = Throw (InvalidSymbol i)"
      by (intro FromString_first_bad) simp_all
    with assms show False by simp
  qed
  with b obtain r' where "FromString input base = Ok r'" "canonical r'"
    using FromString_all_accepted by blast
  with assms show ?thesis by simp
qed

text \<open>
  C8.  The conversion to \<open>int64_t\<close> of a canonical value throws the overflow error exactly
  when the value is below \<open>INT64_MIN\<close> or above \<open>INT64_MAX\<close>, and returns the value itself
  otherwise, \<open>INT64_MIN\<close> included (the accumulation wraps around there, as two's complement
  arithmetic does, and the product with the sign wraps back).
\<close>

theorem narrowing_conversion:
  assumes "canonical a"
  shows "(to_int64 a = Throw Int64Overflow \<longleftrightarrow> int_of a < INT64_MIN \<or> INT64_MAX < int_of a)
    \<and> (INT64_MIN \<le> int_of a \<and> int_of a \<le> INT64_MAX \<longrightarrow> to_int64 a = Ok (int_of a))
    \<and> to_int64 (from_int64 INT64_MIN) = Ok INT64_MIN"
proof (intro conjI impI)
  show "to_int64 a = Throw Int64Overflow \<longleftrightarrow> int_of a < INT64_MIN \<or> INT64_MAX < int_of a"
  proof (cases "int_of a < INT64_MIN \<or> INT64_MAX < int_of a")
    case True
    with to_int64_spec(1) [OF assms] show ?thesis by simp
  next
    case False
    then have "to_int64 a = Ok (int_of a)"
      using assms by (intro to_int64_spec(2)) simp_all
    with False show ?thesis by simp
  qed
  show "to_int64 a = Ok (int_of a)" if "INT64_MIN \<le> int_of a \<and> int_of a \<le> INT64_MAX"
    using assms that by (intro to_int64_spec(2)) simp_all
  have "to_int64 (from_int64 INT64_MIN) = Ok (int_of (from_int64 INT64_MIN))"
    by (intro to_int64_spec(2)) (simp_all add: INT64_MIN_def INT64_MAX_def)
  then show "to_int64 (from_int64 INT64_MIN) = Ok INT64_MIN" by simp
qed

theorem narrowing_conversion_witness:
  "canonical \<lparr>digits = [854775808, 223372036, 9], is_negative = True\<rparr>
   \<and> to_int64 \<lparr>digits = [854775808, 223372036, 9], is_negative = True\<rparr> = Ok (- 9223372036854775808)
   \<and> canonical \<lparr>digits = [854775808, 223372036, 9], is_negative = False\<rparr>
   \<and> to_int64 \<lparr>digits = [854775808, 223372036, 9], is_negative = False\<rparr> = Throw Int64Overflow"
  using narrowing_conversion [of "\<lparr>digits = [854775808, 223372036, 9], is_negative = True\<rparr>"]
    narrowing_conversion [of "\<lparr>digits = [854775808, 223372036, 9], is_negative = False\<rparr>"]
  by (simp add: canonical_def canon_def internal_base_def int_of_def Sign_def NumberOfDigits_def
      INT64_MIN_def INT64_MAX_def)

text \<open>
  C6.  For a canonical \<open>a\<close> and a modulus \<open>0 < m < 2 ^ 32\<close>, \<open>a % m\<close> returns
  \<open>((a - (a/m)*m) mod m + m) mod m\<close> with the truncating quotient \<open>a/m\<close>; the result is in
  \<open>[0, m)\<close> whatever the sign of \<open>a\<close>, and it is \<open>a\<close> modulo \<open>m\<close>.  In particular
  \<open>(-17) % 5 = 3\<close>.
\<close>

theorem remainder_native_modulus:
  assumes "canonical a" and "0 < m" and "m < 2 ^ 32"
  shows "(\<exists>r. op_rem a m = Ok r
          \<and> int r = ((int_of a - (int_of a sdiv int m) * int m) mod int m + int m) mod int m
          \<and> r < m \<and> int r = int_of a mod int m)
    \<and> op_rem (from_int64 (- 17)) 5 = Ok 3"
proof
  have r: "op_rem a m = Ok (nat (int_of a mod int m))"
    using assms by (rule op_rem_spec)
  have nn: "0 \<le> int_of a mod int m" and lt: "int_of a mod int m < int m"
    using assms(2) by simp_all
  have "(int_of a - (int_of a sdiv int m) * int m) mod int m = int_of a mod int m"
    using assms(2) by (simp add: minus_sdiv_mult_eq_smod smod_mod_eq)
  then have "((int_of a - (int_of a sdiv int m) * int m) mod int m + int m) mod int m
      = int_of a mod int m"
    by simp
  with r nn lt show "\<exists>r. op_rem a m = Ok r
          \<and> int r = ((int_of a - (int_of a sdiv int m) * int m) mod int m + int m) mod int m
          \<and> r < m \<and> int r = int_of a mod int m"
    by (intro exI [of _ "nat (int_of a mod int m)"]) (simp add: nat_less_iff)
  have "op_rem (from_int64 (- 17)) 5 = Ok (nat (int_of (from_int64 (- 17)) mod int 5))"
    by (rule op_rem_spec) simp_all
  then show "op_rem (from_int64 (- 17)) 5 = Ok 3" by simp
qed

theorem remainder_native_modulus_witness:
  "canonical \<lparr>digits = [17], is_negative = True\<rparr> \<and> (0 :: nat) < 5 \<and> (5 :: nat) < 2 ^ 32
   \<and> op_rem \<lparr>digits = [17], is_negative = True\<rparr> 5 = Ok 3"
proof -
  have h: "canonical \<lparr>digits = [17], is_negative = True\<rparr>" "(0 :: nat) < 5" "(5 :: nat) < 2 ^ 32"
    by (simp_all add: canonical_def canon_def internal_base_def)
  from remainder_native_modulus [OF h]
  obtain r where "op_rem \<lparr>digits = [17], is_negative = True\<rparr> 5 = Ok r"
    "int r = int_of \<lparr>digits = [17], is_negative = True\<rparr> mod int 5"
    by blast
  moreover have "int_of \<lparr>digits = [17], is_negative = True\<rparr> mod int 5 = 3"
    by (simp add: int_of_def Sign_def NumberOfDigits_def)
  ultimately show ?thesis using h by simp
qed

text \<open>
  C5.  \<open>FromString\<close> throws the invalid-base error when the base is outside \<open>[2, 36]\<close>.
  Otherwise a character is accepted when it is a \<open>-\<close> at index \<open>0\<close> or maps to a digit
  below the base, by \<open>'0'-'9' \<rightarrow> 0-9\<close> and \<open>'a'-'z' \<rightarrow> 10-35\<close> (every other character,
  \<open>-\<close> among them, maps to \<open>-1\<close>); the first character that is not accepted makes
  \<open>FromString\<close> throw the invalid-symbol error with its index, and a text whose characters
  are all accepted is parsed.
\<close>

theorem parse_errors:
  "(base < 2 \<or> 36 < base \<longrightarrow> FromString input base = Throw InvalidBase)
   \<and> (2 \<le> base \<and> base \<le> 36 \<longrightarrow>
        (\<forall>i<length input. \<not> accepted base input i \<and> (\<forall>j<i. accepted base input j) \<longrightarrow>
           FromString input base = Throw (InvalidSymbol i))
        \<and> ((\<forall>i<length input. accepted base input i) \<longrightarrow> (\<exists>r. FromString input base = Ok r)))
   \<and> (\<forall>i. accepted base input i \<longleftrightarrow>
          (i = 0 \<and> input ! 0 = CHR ''-'')
          \<or> (0 \<le> CharToDigit (input ! i) \<and> CharToDigit (input ! i) < base))
   \<and> (\<forall>ch. CharToDigit ch =
         (if (48 :: int) \<le> of_char ch \<and> (of_char ch :: int) \<le> 57 then of_char ch - 48
          else if (97 :: int) \<le> of_char ch \<and> (of_char ch :: int) \<le> 122 then of_char ch - 97 + 10
          else - 1))
   \<and> CharToDigit CHR ''0'' = 0 \<and> CharToDigit CHR ''9'' = 9 \<and> CharToDigit CHR ''a'' = 10
   \<and> CharToDigit CHR ''z'' = 35 \<and> CharToDigit CHR ''A'' = - 1 \<and> CharToDigit CHR ''-'' = - 1"
proof (intro conjI impI allI)
  show "FromString input base = Throw InvalidBase" if "base < 2 \<or> 36 < base"
    using that by (auto simp: FromString_def ThrowIfBaseIsInvalid_def)
  show "FromString input base = Throw (InvalidSymbol i)"
    if "2 \<le> base \<and> base \<le> 36" "i < length input"
      "\<not> accepted base input i \<and> (\<forall>j<i. accepted base input j)" for i
    using that by (intro FromString_first_bad) simp_all
  show "\<exists>r. FromString input base = Ok r"
    if "2 \<le> base \<and> base \<le> 36" "\<forall>i<length input. accepted base input i"
    using FromString_all_accepted [of base input] that by blast
  show "accepted base input i \<longleftrightarrow>
          (i = 0 \<and> input ! 0 = CHR ''-'')
          \<or> (0 \<le> CharToDigit (input ! i) \<and> CharToDigit (input ! i) < base)" for i
    by (simp add: accepted_def valid_digit_def)
  show "CharToDigit ch =
         (if (48 :: int) \<le> of_char ch \<and> (of_char ch :: int) \<le> 57 then of_char ch - 48
          else if (97 :: int) \<le> of_char ch \<and> (of_char ch :: int) \<le> 122 then of_char ch - 97 + 10
          else - 1)" for ch
    by (simp add: CharToDigit_def)
qed (simp_all add: CharToDigit_def)

theorem parse_errors_witness:
  "\<not> accepted 16 ''12g'' 2 \<and> accepted 16 ''12g'' 0 \<and> accepted 16 ''12g'' 1
   \<and> FromString ''12g'' 16 = Throw (InvalidSymbol 2)
   \<and> FromString ''12'' 37 = Throw InvalidBase
   \<and> \<not> accepted 10 ''1-2'' 1 \<and> accepted 10 ''1-2'' 0
   \<and> FromString ''1-2'' 10 = Throw (InvalidSymbol 1)"
proof -
  have a: "\<not> accepted 16 ''12g'' 2" "accepted 16 ''12g'' 0" "accepted 16 ''12g'' 1"
    "\<not> accepted 10 ''1-2'' 1" "accepted 10 ''1-2'' 0"
    by (simp_all add: accepted_def valid_digit_def CharToDigit_def)
  have b: "\<forall>j<2. accepted 16 ''12g'' j" "\<forall>j<1. accepted 10 ''1-2'' j"
    using a by (simp_all add: less_Suc_eq numeral_2_eq_2)
  from parse_errors [of 16 "''12g''"] a(1) b(1)
  have "FromString ''12g'' 16 = Throw (InvalidSymbol 2)" by simp
  moreover from parse_errors [of 37 "''12''"]
  have "FromString ''12'' 37 = Throw InvalidBase" by simp
  moreover from parse_errors [of 10 "''1-2''"] a(4) b(2)
  have "FromString ''1-2'' 10 = Throw (InvalidSymbol 1)" by simp
  ultimately show ?thesis using a by simp
qed

text \<open>
  C2.  For every canonical \<open>x\<close> (zero and negative values included) and every base from 2 to
  36, \<open>ToString\<close> without the prefix flag returns a text, \<open>FromString\<close> parses that text in
  the same base, and \<open>operator==\<close> finds the parsed value equal to \<open>x\<close>.
\<close>

theorem render_parse_round_trip:
  assumes "canonical x" and "2 \<le> base" and "base \<le> 36"
  shows "\<exists>s y. ToString x base False = Ok s \<and> FromString s base = Ok y \<and> op_eq y x
           \<and> canonical y \<and> int_of y = int_of x"
proof -
  define body where "body = (if digits x = [] then ''0''
     else map DigitToChar (lsb_digits base (val (digits x))))"
  define dash where "dash = (if Sign x = - 1 then ''-'' else [])"
  define s where "s = rev (body @ dash)"
  have ts: "ToString x base False = Ok s"
    using ToString_spec [OF assms, of False] by (simp add: s_def body_def dash_def)
  have lim: "limbs (digits x)" using assms(1) by (simp add: canonical_def)
  have v0: "valid_digit base CHR ''0''"
    using assms(2) by (simp add: valid_digit_def CharToDigit_def)
  have valid: "valid_digit base c" if "c \<in> set body" for c
  proof (cases "digits x = []")
    case True
    with that v0 show ?thesis by (simp add: body_def)
  next
    case False
    with that obtain d where "d \<in> set (lsb_digits base (val (digits x)))" "c = DigitToChar d"
      by (auto simp: body_def)
    with lsb_digits_range [OF assms(2), of d] assms(3) show ?thesis
      by (simp add: valid_digit_DigitToChar)
  qed
  have ne: "body \<noteq> []"
  proof (cases "digits x = []")
    case True
    then show ?thesis by (simp add: body_def)
  next
    case False
    then have "0 < val (digits x)"
      using assms(1) by (simp add: canonical_def val_pos_canon)
    with False assms(2) show ?thesis
      by (simp add: body_def lsb_digits_nonempty)
  qed
  have sv: "str_val base body = val (digits x)"
  proof (cases "digits x = []")
    case True
    then show ?thesis by (simp add: body_def CharToDigit_def)
  next
    case False
    with assms(2,3) val_nonneg [OF lim] show ?thesis
      by (simp add: body_def str_val_lsb_digits)
  qed
  have sv': "str_val base (rev s) = val (digits x)"
    using sv by (simp add: s_def dash_def)
  have acc: "\<forall>i<length s. (i = 0 \<and> s ! 0 = CHR ''-'') \<or> valid_digit base (s ! i)"
  proof (intro allI impI)
    fix i assume i: "i < length s"
    show "(i = 0 \<and> s ! 0 = CHR ''-'') \<or> valid_digit base (s ! i)"
    proof (cases "Sign x = - 1")
      case True
      then have s': "s = CHR ''-'' # rev body" by (simp add: s_def dash_def)
      show ?thesis
      proof (cases i)
        case 0
        with s' show ?thesis by simp
      next
        case (Suc k)
        with i s' have "s ! i \<in> set body"
          by (simp add: nth_mem [of k "rev body", simplified])
        then show ?thesis using valid by simp
      qed
    next
      case False
      then have "s = rev body" by (simp add: s_def dash_def)
      with i have "s ! i \<in> set body"
        using nth_mem [of i "rev body"] by simp
      then show ?thesis using valid by simp
    qed
  qed
  have hd: "(case s of [] \<Rightarrow> False | ch # _ \<Rightarrow> ch = CHR ''-'') \<longleftrightarrow> Sign x = - 1"
  proof (cases "Sign x = - 1")
    case True
    then show ?thesis by (simp add: s_def dash_def)
  next
    case False
    then have s': "s = rev body" by (simp add: s_def dash_def)
    with ne have "s \<noteq> []" by simp
    then obtain c cs where cs: "s = c # cs" by (cases s) auto
    with s' have "c \<in> set body" by (metis list.set_intros(1) set_rev)
    then have "c \<noteq> CHR ''-''" using valid valid_digit_not_dash by blast
    with cs False show ?thesis by simp
  qed
  from FromString_spec [OF assms(2,3) acc]
  obtain y where y: "FromString s base = Ok y" "canonical y"
      "int_of y = (if (case s of [] \<Rightarrow> False | ch # _ \<Rightarrow> ch = CHR ''-'')
                   then - str_val base (rev s) else str_val base (rev s))"
    by blast
  have "int_of y = int_of x"
    using y(3) hd sv' by (simp add: int_of_neg int_of_nonneg)
  with ts y(1,2) assms(1) show ?thesis
    by (auto simp: op_eq_canonical)
qed

theorem render_parse_round_trip_witness:
  "canonical \<lparr>digits = [255], is_negative = True\<rparr> \<and> (2 :: int) \<le> 16 \<and> (16 :: int) \<le> 36
   \<and> (\<exists>s y. ToString \<lparr>digits = [255], is_negative = True\<rparr> 16 False = Ok s
          \<and> FromString s 16 = Ok y \<and> op_eq y \<lparr>digits = [255], is_negative = True\<rparr>)"
proof -
  have h: "canonical \<lparr>digits = [255], is_negative = True\<rparr>" "(2 :: int) \<le> 16" "(16 :: int) \<le> 36"
    by (simp_all add: canonical_def canon_def internal_base_def)
  from render_parse_round_trip [OF h] h show ?thesis by blast
qed

text \<open>
  C3 (as the code has it).  Construction from a native integer, addition, subtraction,
  multiplication, division by a nonzero divisor, negation and parsing all return canonical
  results on canonical operands: every limb is in \<open>[0, internal_base)\<close> and the most
  significant limb is not zero, so zero has the empty limb list; and the sign query of a zero
  is \<open>0\<close>, never \<open>-1\<close>.  The flag of a zero result is not always cleared: see the
  counterexample.
\<close>

theorem results_are_canonical:
  "canonical (from_int64 v)
   \<and> (canonical a \<and> canonical b \<longrightarrow>
        (\<exists>c. op_add a b = Ok c \<and> canonical c) \<and> (\<exists>c. op_sub a b = Ok c \<and> canonical c)
        \<and> (\<exists>c. op_mul a b = Ok c \<and> canonical c)
        \<and> (int_of b \<noteq> 0 \<longrightarrow> (\<exists>c. op_div a b = Ok c \<and> canonical c))
        \<and> canonical (op_neg a) \<and> canonical (Negate a) \<and> canonical (Abs a))
   \<and> (\<forall>r. FromString input base = Ok r \<longrightarrow> canonical r)
   \<and> (canonical a \<longrightarrow>
        (int_of a = 0 \<longleftrightarrow> digits a = []) \<and> (int_of a = 0 \<longrightarrow> Sign a = 0)
        \<and> (Sign a = - 1 \<longleftrightarrow> int_of a < 0))"
proof (intro conjI impI allI)
  show "canonical (from_int64 v)" by simp
  show "canonical r" if "FromString input base = Ok r" for r
    using that by (rule FromString_Ok_canonical)
next
  assume c: "canonical a \<and> canonical b"
  show "\<exists>c. op_add a b = Ok c \<and> canonical c"
    using op_add_canonical [of a b] c by blast
  show "\<exists>c. op_sub a b = Ok c \<and> canonical c"
    using op_sub_canonical [of a b] c by blast
  show "\<exists>c. op_mul a b = Ok c \<and> canonical c"
    using op_mul_canonical [of a b] c by blast
  show "\<exists>c. op_div a b = Ok c \<and> canonical c" if "int_of b \<noteq> 0"
  proof -
    from that have "digits b \<noteq> []" by (auto simp: int_of_def)
    with op_div_int_of [of a b] c show ?thesis by blast
  qed
  show "canonical (op_neg a)" "canonical (Negate a)" "canonical (Abs a)"
    using c by (simp_all add: canonical_def Negate_def Abs_def)
next
  assume c: "canonical a"
  show "int_of a = 0 \<longleftrightarrow> digits a = []"
    using c by (rule canonical_zero_iff)
  show "Sign a = 0" if "int_of a = 0"
    using c that by (simp add: canonical_Sign)
  show "Sign a = - 1 \<longleftrightarrow> int_of a < 0"
    using c by (simp add: canonical_Sign sgn_if)
qed

theorem results_are_canonical_witness:
  "canonical \<lparr>digits = [5], is_negative = True\<rparr> \<and> canonical \<lparr>digits = [5], is_negative = False\<rparr>
   \<and> (\<exists>c. op_add \<lparr>digits = [5], is_negative = True\<rparr> \<lparr>digits = [5], is_negative = False\<rparr> = Ok c
          \<and> canonical c)
   \<and> Sign \<lparr>digits = [5], is_negative = True\<rparr> = - 1"
  using results_are_canonical [of 0 "\<lparr>digits = [5], is_negative = True\<rparr>"
      "\<lparr>digits = [5], is_negative = False\<rparr>" "[]" 10]
  by (simp add: canonical_def canon_def internal_base_def int_of_def Sign_def NumberOfDigits_def)

theorem zero_flag_counterexample:
  "op_add (from_int64 (- 5)) (from_int64 5) = Ok \<lparr>digits = [], is_negative = True\<rparr>
   \<and> op_neg (from_int64 0) = \<lparr>digits = [], is_negative = True\<rparr>"
  by code_simp

text \<open>
  C9.  \<open>operator<<\<close> renders with \<open>ToString(10)\<close> whatever the flags of the stream are: with
  the \<open>hex\<close> flag set, 255 is written as \<open>255\<close>, where the Base Converter at the ambient base
  16 gives \<open>ff\<close>; and with \<open>showbase\<close> set, a negative value gets its sign twice and no
  prefix.
\<close>

theorem stream_output_is_decimal:
  "op_out \<lparr>flag_dec = False, flag_oct = False, flag_hex = True, flag_showbase = False, written = []\<rparr>
      (from_int64 255)
     = Ok \<lparr>flag_dec = False, flag_oct = False, flag_hex = True, flag_showbase = False,
           written = ''255''\<rparr>
   \<and> GetStreamBase \<lparr>flag_dec = False, flag_oct = False, flag_hex = True, flag_showbase = False,
        written = []\<rparr> = 16
   \<and> ToString (from_int64 255) 16 False = Ok ''ff''
   \<and> op_out \<lparr>flag_dec = False, flag_oct = False, flag_hex = True, flag_showbase = True, written = []\<rparr>
      (from_int64 (- 255))
     = Ok \<lparr>flag_dec = False, flag_oct = False, flag_hex = True, flag_showbase = True,
           written = ''--255''\<rparr>
   \<and> ToString (from_int64 (- 255)) 16 True = Ok ''-0xff''"
  by code_simp

end
